theory Spec2Isabelle
  imports Complex_Main "HOL-Library.Multiset" "HOL-Library.List_Lexorder"
begin

section \<open>Conventions\<close>

text \<open>
  The model follows the analyzers of the Agent Intelligence Hub. Agent ids are the SERIAL
  primary keys of the agents table, modelled as natural numbers. JavaScript numbers and
  SQL floats (weights, scores, risks, confidences) are modelled as reals, so the rounding
  of IEEE doubles is outside the model. A query's result is a list of rows.
\<close>

type_synonym agent_id = nat

text \<open>
  A JavaScript Map keeps its keys in insertion order; it is modelled as an association
  list with distinct keys. \<open>mapSet\<close> is \<^verbatim>\<open>m.set(k, v)\<close>; \<open>mapPush\<close> is the idiom
  \<^verbatim>\<open>if (!m.has(k)) m.set(k, []); m.get(k).push(v)\<close>. \<open>foldOption\<close> runs a loop whose body
  can throw: \<open>None\<close> is the exception, which ends the loop.
\<close>

fun mapPush :: "'k \<Rightarrow> 'v \<Rightarrow> ('k \<times> 'v list) list \<Rightarrow> ('k \<times> 'v list) list" where
  "mapPush k v [] = [(k, [v])]"
| "mapPush k v ((k', g) # m) =
     (if k' = k then (k', g @ [v]) # m else (k', g) # mapPush k v m)"

fun mapSet :: "'k \<Rightarrow> 'v \<Rightarrow> ('k \<times> 'v) list \<Rightarrow> ('k \<times> 'v) list" where
  "mapSet k v [] = [(k, v)]"
| "mapSet k v ((k', v') # m) = (if k' = k then (k', v) # m else (k', v') # mapSet k v m)"

fun foldOption :: "('s \<Rightarrow> 'x \<Rightarrow> 's option) \<Rightarrow> 's \<Rightarrow> 'x list \<Rightarrow> 's option" where
  "foldOption f s [] = Some s"
| "foldOption f s (x # xs) = (case f s x of None \<Rightarrow> None | Some s' \<Rightarrow> foldOption f s' xs)"

section \<open>Identity resolver (analyzers/identity\_resolution.js)\<close>

subsection \<open>stringSimilarity and levenshteinDistance\<close>

text \<open>
  Strings are ASCII strings here: \<open>length\<close> counts characters as JavaScript's
  \<^verbatim>\<open>.length\<close> does on them, \<open>toLowerCase\<close> maps A..Z to a..z and \<open>trim\<close> strips the ASCII
  white space (tab, line feed, vertical tab, form feed, carriage return, space) at both
  ends. A falsy argument of stringSimilarity is the empty string.
\<close>

definition isWhiteSpace :: "char \<Rightarrow> bool" where
  "isWhiteSpace c \<longleftrightarrow> of_char c \<in> {9, 10, 11, 12, 13, 32 :: nat}"

definition trim :: "string \<Rightarrow> string" where
  "trim s = rev (dropWhile isWhiteSpace (rev (dropWhile isWhiteSpace s)))"

definition toLowerCaseChar :: "char \<Rightarrow> char" where
  "toLowerCaseChar c =
     (if 65 \<le> (of_char c :: nat) \<and> (of_char c :: nat) \<le> 90
      then char_of (of_char c + 32 :: nat) else c)"

definition toLowerCase :: "string \<Rightarrow> string" where
  "toLowerCase s = map toLowerCaseChar s"

text \<open>
  The table \<^verbatim>\<open>track\<close> has one row per prefix of s2 and one column per prefix of s1; the
  three loops of levenshteinDistance fill row 0, column 0 and then the rest row by row.
\<close>

type_synonym track = "nat list list"

definition setCell :: "track \<Rightarrow> nat \<Rightarrow> nat \<Rightarrow> nat \<Rightarrow> track" where
  "setCell track j i v = track[j := (track ! j)[i := v]]"

definition indicator :: "'a list \<Rightarrow> 'a list \<Rightarrow> nat \<Rightarrow> nat \<Rightarrow> nat" where
  "indicator s1 s2 i j = (if s1 ! (i - 1) = s2 ! (j - 1) then 0 else 1)"

definition fillCell :: "'a list \<Rightarrow> 'a list \<Rightarrow> nat \<Rightarrow> track \<Rightarrow> nat \<Rightarrow> track" where
  "fillCell s1 s2 j track i =
     setCell track j i
       (min (min (track ! j ! (i - 1) + 1) (track ! (j - 1) ! i + 1))
            (track ! (j - 1) ! (i - 1) + indicator s1 s2 i j))"

definition fillRow :: "'a list \<Rightarrow> 'a list \<Rightarrow> track \<Rightarrow> nat \<Rightarrow> track" where
  "fillRow s1 s2 track j = foldl (fillCell s1 s2 j) track [1..<length s1 + 1]"

definition levenshteinDistance :: "'a list \<Rightarrow> 'a list \<Rightarrow> nat" where
  "levenshteinDistance s1 s2 =
     (let track0 = replicate (length s2 + 1) (replicate (length s1 + 1) 0);
          track1 = foldl (\<lambda>track i. setCell track 0 i i) track0 [0..<length s1 + 1];
          track2 = foldl (\<lambda>track j. setCell track j 0 j) track1 [0..<length s2 + 1];
          track3 = foldl (fillRow s1 s2) track2 [1..<length s2 + 1]
      in track3 ! length s2 ! length s1)"

definition stringSimilarity :: "string \<Rightarrow> string \<Rightarrow> real" where
  "stringSimilarity str1 str2 =
     (if str1 = [] \<or> str2 = [] then 0
      else
        let s1 = trim (toLowerCase str1);
            s2 = trim (toLowerCase str2)
        in if s1 = s2 then 1.0
           else
             let longer = (if length s1 > length s2 then s1 else s2);
                 shorter = (if length s1 > length s2 then s2 else s1)
             in if length longer = 0 then 1.0
                else
                  let editDistance = levenshteinDistance longer shorter
                  in (real (length longer) - real editDistance) / real (length longer))"

text \<open>
  The Levenshtein distance as it is defined on lists, to compare the table with.
\<close>

fun edit_distance :: "'a list \<Rightarrow> 'a list \<Rightarrow> nat" where
  "edit_distance [] ys = length ys"
| "edit_distance xs [] = length xs"
| "edit_distance (x # xs) (y # ys) =
     min (min (edit_distance xs (y # ys) + 1) (edit_distance (x # xs) ys + 1))
         (edit_distance xs ys + (if x = y then 0 else 1))"

text \<open>Edit scripts: \<open>aligned n xs ys\<close> holds when n single-character insertions, deletions
  and substitutions turn xs into ys.\<close>

inductive aligned :: "nat \<Rightarrow> 'a list \<Rightarrow> 'a list \<Rightarrow> bool" where
  stop: "aligned 0 [] []"
| del: "aligned n xs ys \<Longrightarrow> aligned (Suc n) (x # xs) ys"
| ins: "aligned n xs ys \<Longrightarrow> aligned (Suc n) xs (y # ys)"
| keep: "aligned n xs ys \<Longrightarrow> aligned n (x # xs) (x # ys)"
| sub: "aligned n xs ys \<Longrightarrow> aligned (Suc n) (x # xs) (y # ys)"

text \<open>What the cell in column i of row j has to hold, and the shape of the table.\<close>

definition prefixDistance :: "'a list \<Rightarrow> 'a list \<Rightarrow> nat \<Rightarrow> nat \<Rightarrow> nat" where
  "prefixDistance s1 s2 i j = edit_distance (rev (take i s1)) (rev (take j s2))"

definition shaped :: "nat \<Rightarrow> nat \<Rightarrow> track \<Rightarrow> bool" where
  "shaped n1 n2 t \<longleftrightarrow> length t = n2 + 1 \<and> (\<forall>j \<le> n2. length (t ! j) = n1 + 1)"

text \<open>The cells filled so far hold the distances of the prefixes.\<close>

definition filled :: "'a list \<Rightarrow> 'a list \<Rightarrow> track \<Rightarrow> nat \<Rightarrow> nat \<Rightarrow> bool" where
  "filled s1 s2 t j i \<longleftrightarrow>
     shaped (length s1) (length s2) t \<and>
     (\<forall>j' \<le> length s2. \<forall>i' \<le> length s1.
        (j' = 0 \<or> i' = 0 \<or> j' < j \<or> (j' = j \<and> i' < i)) \<longrightarrow>
        t ! j' ! i' = prefixDistance s1 s2 i' j')"

subsection \<open>Identity links and createUnifiedProfiles\<close>

text \<open>
  A row of agent\_identity\_links; its key is (primary\_agent\_id, linked\_agent\_id), the
  conflict target of the upserts. The agents table enters createUnifiedProfiles through
  its ids only.
\<close>

record identity_link =
  primary_agent_id :: agent_id
  linked_agent_id :: agent_id
  link_type :: string
  confidence :: real

record cluster_row =
  root_agent_id :: agent_id
  cluster_id :: agent_id
  depth :: nat

record unified_profile =
  profile_primary :: agent_id
  linked_agent_ids :: "agent_id list"
  profile_type :: string

text \<open>
  The recursive query agent\_clusters. Its base case selects the agents for which no link
  exists; its recursive case joins the rows found last with the links on either end and
  selects \<^verbatim>\<open>COALESCE(ail.linked_agent_id, ail.primary_agent_id)\<close>, which is the linked id
  since the column is part of the key and not NULL. UNION ALL keeps every row, and the
  iteration ends when a step finds no row, which \<^verbatim>\<open>depth < 10\<close> forces.
\<close>

definition hasLink :: "identity_link list \<Rightarrow> agent_id \<Rightarrow> bool" where
  "hasLink links a = list_ex (\<lambda>l. primary_agent_id l = a \<or> linked_agent_id l = a) links"

definition baseClusters :: "agent_id list \<Rightarrow> identity_link list \<Rightarrow> cluster_row list" where
  "baseClusters agents links =
     map (\<lambda>a. \<lparr> root_agent_id = a, cluster_id = a, depth = 0 \<rparr>)
       (filter (\<lambda>a. \<not> hasLink links a) agents)"

definition followLinks :: "identity_link list \<Rightarrow> cluster_row \<Rightarrow> cluster_row list" where
  "followLinks links ac =
     map (\<lambda>ail. \<lparr> root_agent_id = root_agent_id ac, cluster_id = linked_agent_id ail,
                   depth = depth ac + 1 \<rparr>)
       (filter (\<lambda>ail. (cluster_id ac = primary_agent_id ail \<or> cluster_id ac = linked_agent_id ail)
                      \<and> depth ac < 10) links)"

definition recursiveStep :: "identity_link list \<Rightarrow> cluster_row list \<Rightarrow> cluster_row list" where
  "recursiveStep links working = concat (map (followLinks links) working)"

definition minDepth :: "cluster_row list \<Rightarrow> nat" where
  "minDepth working = Min (depth ` set working)"

lemma recursiveStep_depth:
  assumes "r \<in> set (recursiveStep links working)"
  shows "minDepth working < depth r \<and> depth r \<le> 10"
proof -
  from assms obtain ac where ac: "ac \<in> set working" "depth ac < 10" "depth r = depth ac + 1"
    by (auto simp: recursiveStep_def followLinks_def)
  have "minDepth working \<le> depth ac"
    unfolding minDepth_def using ac(1) by (intro Min_le) auto
  with ac show ?thesis by simp
qed

function agentClustersFrom :: "identity_link list \<Rightarrow> cluster_row list \<Rightarrow> cluster_row list" where
  "agentClustersFrom links working =
     (if working = [] then []
      else working @ agentClustersFrom links (recursiveStep links working))"
  by pat_completeness auto
termination
proof (relation "measure (\<lambda>(links, working). if working = [] then 0 else Suc (11 - minDepth working))")
  show "wf (measure (\<lambda>(links, working). if working = [] then 0 else Suc (11 - minDepth working)))"
    by simp
next
  fix links :: "identity_link list" and working :: "cluster_row list"
  assume ne: "working \<noteq> []"
  let ?next = "recursiveStep links working"
  show "((links, ?next), (links, working))
          \<in> measure (\<lambda>(links, working). if working = [] then 0 else Suc (11 - minDepth working))"
  proof (cases "?next = []")
    case True
    with ne show ?thesis by simp
  next
    case False
    have "minDepth ?next \<in> depth ` set ?next"
      unfolding minDepth_def using False by (intro Min_in) auto
    then obtain r where "r \<in> set ?next" "minDepth ?next = depth r" by auto
    with recursiveStep_depth [of r links working]
    have "minDepth working < minDepth ?next" "minDepth ?next \<le> 10" by simp_all
    with ne False show ?thesis by simp
  qed
qed

definition agentClusters :: "agent_id list \<Rightarrow> identity_link list \<Rightarrow> cluster_row list" where
  "agentClusters agents links = agentClustersFrom links (baseClusters agents links)"

text \<open>
  canonical\_agents groups the cluster rows, keeps the groups with more than one distinct
  cluster id, and the statement upserts one profile per group. ARRAY\_AGG(DISTINCT ...) is
  taken in ascending order.
\<close>

definition groupKey :: "cluster_row \<Rightarrow> agent_id" where
  "groupKey r = (if root_agent_id r = cluster_id r then root_agent_id r
                 else min (root_agent_id r) (cluster_id r))"

definition profileType :: "nat \<Rightarrow> string" where
  "profileType cluster_size =
     (if cluster_size \<ge> 5 then ''network''
      else if cluster_size \<ge> 3 then ''multi_account''
      else ''linked'')"

definition canonicalAgent :: "cluster_row list \<Rightarrow> agent_id \<times> agent_id list \<times> nat" where
  "canonicalAgent grp =
     (Min (set (map root_agent_id grp)),
      sort (remdups (map cluster_id grp)),
      length (remdups (map cluster_id grp)))"

definition canonicalAgents :: "cluster_row list \<Rightarrow> (agent_id \<times> agent_id list \<times> nat) list" where
  "canonicalAgents clusters =
     filter (\<lambda>(canonical_id, linked_ids, cluster_size). cluster_size > 1)
       (map (\<lambda>k. canonicalAgent (filter (\<lambda>r. groupKey r = k) clusters))
          (remdups (map groupKey clusters)))"

definition upsertProfile :: "unified_profile list \<Rightarrow> unified_profile \<Rightarrow> unified_profile list" where
  "upsertProfile profiles p =
     (if list_ex (\<lambda>x. profile_primary x = profile_primary p) profiles
      then map (\<lambda>x. if profile_primary x = profile_primary p
                     then x\<lparr> linked_agent_ids := linked_agent_ids p \<rparr> else x) profiles
      else profiles @ [p])"

definition createUnifiedProfiles ::
  "agent_id list \<Rightarrow> identity_link list \<Rightarrow> unified_profile list \<Rightarrow> unified_profile list option" where
  "createUnifiedProfiles agents links profiles =
     (let rows = map (\<lambda>(canonical_id, linked_ids, cluster_size).
                        \<lparr> profile_primary = canonical_id, linked_agent_ids = linked_ids,
                          profile_type = profileType cluster_size \<rparr>)
                   (canonicalAgents (agentClusters agents links))
      in if distinct (map profile_primary rows) then Some (foldl upsertProfile profiles rows)
         else None)"

subsection \<open>linkExactMatches and linkFuzzyMatches\<close>

text \<open>
  linkExactMatches is one INSERT ... SELECT; linkFuzzyMatches queries the candidate pairs
  (at most 5000) and runs one INSERT per pair whose names are similar enough. Both name
  the conflict target (primary\_agent\_id, linked\_agent\_id); \<open>insertExactMatch\<close> and
  \<open>insertFuzzyMatch\<close> are these INSERT statements for one pair, \<open>excluded\<close> being the row
  proposed for insertion. LOWER is taken on ASCII names.
\<close>

record agent_row =
  a_id :: agent_id
  a_name :: string
  a_platform :: string
  a_created_at :: int


definition sameLinkKey :: "agent_id \<Rightarrow> agent_id \<Rightarrow> identity_link \<Rightarrow> bool" where
  "sameLinkKey a1 a2 l \<longleftrightarrow> primary_agent_id l = a1 \<and> linked_agent_id l = a2"

definition insertExactMatch :: "identity_link list \<Rightarrow> agent_id \<Rightarrow> agent_id \<Rightarrow> identity_link list" where
  "insertExactMatch links a1 a2 =
     (let excluded = \<lparr> primary_agent_id = a1, linked_agent_id = a2,
                        link_type = ''exact_name_match'', confidence = 0.95 \<rparr>
      in if list_ex (sameLinkKey a1 a2) links
         then map (\<lambda>l. if sameLinkKey a1 a2 l
                        then l\<lparr> confidence := max (confidence excluded) (confidence l) \<rparr>
                        else l) links
         else links @ [excluded])"



definition insertFuzzyMatch ::
  "identity_link list \<Rightarrow> agent_id \<Rightarrow> agent_id \<Rightarrow> real \<Rightarrow> identity_link list" where
  "insertFuzzyMatch links a1 a2 similarity =
     (let excluded = \<lparr> primary_agent_id = a1, linked_agent_id = a2,
                        link_type = ''fuzzy_name_match'', confidence = similarity \<rparr>
      in if list_ex (sameLinkKey a1 a2) links
         then map (\<lambda>l. if sameLinkKey a1 a2 l
                        then l\<lparr> confidence := max (confidence excluded) similarity \<rparr>
                        else l) links
         else links @ [excluded])"












subsection \<open>detectSockPuppets\<close>

text \<open>
  detectSockPuppets runs one INSERT ... SELECT over a common table expression
  network\_clusters. PostgreSQL analyses a statement before it evaluates it, and rejects
  an aggregate or a window function inside GROUP BY. The expressions of the statement are
  represented as terms, so that this analysis can be run on them.
\<close>

datatype sql_expr =
  Column string
| Constant string
| Aggregate string "sql_expr list"
| WindowAggregate string "sql_expr list"
| Apply string "sql_expr list"
| CaseWhen "(sql_expr \<times> sql_expr) list" sql_expr

fun hasAggregate :: "sql_expr \<Rightarrow> bool" where
  "hasAggregate (Column c) = False"
| "hasAggregate (Constant c) = False"
| "hasAggregate (Aggregate f args) = True"
| "hasAggregate (WindowAggregate f args) = list_ex hasAggregate args"
| "hasAggregate (Apply f args) = list_ex hasAggregate args"
| "hasAggregate (CaseWhen branches other) =
     (list_ex (\<lambda>b. hasAggregate (fst b) \<or> hasAggregate (snd b)) branches \<or> hasAggregate other)"

fun hasWindow :: "sql_expr \<Rightarrow> bool" where
  "hasWindow (Column c) = False"
| "hasWindow (Constant c) = False"
| "hasWindow (Aggregate f args) = list_ex hasWindow args"
| "hasWindow (WindowAggregate f args) = True"
| "hasWindow (Apply f args) = list_ex hasWindow args"
| "hasWindow (CaseWhen branches other) =
     (list_ex (\<lambda>b. hasWindow (fst b) \<or> hasWindow (snd b)) branches \<or> hasWindow other)"

text \<open>
  The GROUP BY expression of network\_clusters:
  \<^verbatim>\<open>CASE WHEN COUNT(DISTINCT platform) > 2 THEN 'multi_platform'
       WHEN ABS(EXTRACT(EPOCH FROM created_at)
                - AVG(EXTRACT(EPOCH FROM created_at)) OVER ()) < 86400 THEN 'cluster'
       ELSE 'single' END\<close>
\<close>

definition networkClustersGroupBy :: sql_expr where
  "networkClustersGroupBy =
     CaseWhen
       [(Apply ''>'' [Aggregate ''COUNT'' [Column ''platform''], Constant ''2''],
         Constant ''multi_platform''),
        (Apply ''<''
           [Apply ''ABS''
              [Apply ''-''
                 [Apply ''EXTRACT_EPOCH'' [Column ''created_at''],
                  WindowAggregate ''AVG'' [Apply ''EXTRACT_EPOCH'' [Column ''created_at'']]]],
            Constant ''86400''],
         Constant ''cluster'')]
       (Constant ''single'')"

datatype pg_error = NotAllowedInGroupBy

definition analyseGroupBy :: "sql_expr list \<Rightarrow> pg_error option" where
  "analyseGroupBy es =
     (if list_ex (\<lambda>e. hasAggregate e \<or> hasWindow e) es then Some NotAllowedInGroupBy else None)"

record threat_alert =
  alert_type :: string
  severity :: string
  account_count :: nat

record database =
  db_agents :: "agent_row list"
  db_links :: "identity_link list"
  db_alerts :: "threat_alert list"

text \<open>
  The query call of detectSockPuppets: a statement that fails the analysis makes query
  reject, and detectSockPuppets throws. What PostgreSQL would write to threat\_alerts for a
  statement that passes is the parameter \<open>execute\<close>.
\<close>

definition detectSockPuppets ::
  "(database \<Rightarrow> threat_alert list) \<Rightarrow> database \<Rightarrow> pg_error + threat_alert list" where
  "detectSockPuppets execute db =
     (case analyseGroupBy [networkClustersGroupBy] of
        Some e \<Rightarrow> Inl e
      | None \<Rightarrow> Inr (execute db))"

text \<open>
  Four agents created within one hour, on four platforms, linked with confidence 0.95.
\<close>

definition puppet_database :: database where
  "puppet_database =
     \<lparr> db_agents =
         [\<lparr> a_id = 1, a_name = ''nova'', a_platform = ''moltbook'', a_created_at = 1700000000 \<rparr>,
          \<lparr> a_id = 2, a_name = ''Nova'', a_platform = ''moltx'', a_created_at = 1700000600 \<rparr>,
          \<lparr> a_id = 3, a_name = ''NOVA'', a_platform = ''4claw'', a_created_at = 1700001200 \<rparr>,
          \<lparr> a_id = 4, a_name = ''nOva'', a_platform = ''clawdhub'', a_created_at = 1700003000 \<rparr>],
       db_links =
         [\<lparr> primary_agent_id = 1, linked_agent_id = 2,
            link_type = ''exact_name_match'', confidence = 0.95 \<rparr>,
          \<lparr> primary_agent_id = 1, linked_agent_id = 3,
            link_type = ''exact_name_match'', confidence = 0.95 \<rparr>,
          \<lparr> primary_agent_id = 1, linked_agent_id = 4,
            link_type = ''exact_name_match'', confidence = 0.95 \<rparr>],
       db_alerts = [] \<rparr>"

text \<open>Agents 1, 2 and 3 with the links 1-2 and 2-3.\<close>

definition chain_links :: "identity_link list" where
  "chain_links =
     [\<lparr> primary_agent_id = 1, linked_agent_id = 2,
        link_type = ''exact_name_match'', confidence = 0.95 \<rparr>,
      \<lparr> primary_agent_id = 2, linked_agent_id = 3,
        link_type = ''fuzzy_name_match'', confidence = 0.8 \<rparr>]"

section \<open>Threat detectors and correlator (analyzers/threat\_intelligence.js)\<close>

text \<open>
  A threat signal as the detectors push it. The free-text description, the skill fields
  of supply-chain signals and the metadata of the signals other than the two behavioral
  ones are left out: neither the correlation key nor the risk depends on them. A field the
  detector does not set is \<open>None\<close>.
\<close>

datatype threat_metadata =
  RapidCreation (skill_count: nat) (timespan_days: nat)
| CredentialHarvesting (suspicious_skills: nat)
| NoMetadata

record threat =
  threat_type :: string
  subtype :: string
  agent_id :: "agent_id option"
  agent_name :: "string option"
  author :: "string option"
  risk_score :: real
  threat_metadata :: threat_metadata
  correlation_boost :: "real option"

subsection \<open>The tables and the query function\<close>

text \<open>
  The tables that the detectors read, with the columns that the repository gives them:
  agents, posts and security\_alerts are created by initializeSchema (utils/database.js),
  skills by storeSkills of the Moltbook collector, which is also the only writer of skills.
\<close>

type_synonym schema = "(string \<times> string list) list"

definition installedSchema :: schema where
  "installedSchema =
     [(''agents'',
         [''id'', ''name'', ''platform'', ''external_id'', ''metadata'', ''first_seen'',
          ''last_seen'', ''is_verified'', ''reputation_score'', ''created_at'', ''updated_at'']),
      (''posts'',
         [''id'', ''external_id'', ''agent_id'', ''platform'', ''title'', ''content'', ''url'',
          ''upvotes'', ''downvotes'', ''comment_count'', ''submolt'', ''metadata'',
          ''created_at'', ''updated_at'']),
      (''security_alerts'',
         [''id'', ''type'', ''severity'', ''title'', ''description'', ''metadata'', ''resolved'',
          ''created_at'']),
      (''skills'',
         [''id'', ''external_id'', ''name'', ''author'', ''version'', ''downloads'',
          ''description'', ''tags'', ''security_score'', ''verified'', ''source_url'',
          ''metadata'', ''last_updated'', ''created_at'', ''updated_at''])]"

text \<open>
  \<open>query\<close> passes a statement to PostgreSQL and returns its answer, or throws when
  PostgreSQL raises an error. PostgreSQL rejects a statement that names a column its
  table does not have, whatever the rows of the table. A statement is given by the
  (table, column) pairs it names and by the outcome of its evaluation when it is
  accepted: the rows it selects, or an error.
\<close>

datatype sql_error = UndefinedColumn | DivisionByZero

definition hasColumn :: "schema \<Rightarrow> string \<times> string \<Rightarrow> bool" where
  "hasColumn sch tc =
     (case map_of sch (fst tc) of None \<Rightarrow> False | Some columns \<Rightarrow> snd tc \<in> set columns)"

definition query ::
  "schema \<Rightarrow> (string \<times> string) list \<Rightarrow> sql_error + 'r list \<Rightarrow> sql_error + 'r list" where
  "query sch named outcome =
     (if list_all (hasColumn sch) named then outcome else Inl UndefinedColumn)"

subsection \<open>analyzeAgentBehavior\<close>

text \<open>
  The two queries group the skills table; their groups are the inputs here, and the
  HAVING clause of each query is the filter applied to them. The first argument lists
  (agent id, number of skills created in the last 7 days), the second (author, number of
  credential-access or environment-access alerts joined to the author's skills in the
  last 30 days). The counts are BIGINT, which node-postgres delivers as strings; the
  multiplications and comparisons of the detectors convert them to numbers.
\<close>

definition rapidCreators :: "(agent_id \<times> nat) list \<Rightarrow> (agent_id \<times> nat) list" where
  "rapidCreators groups = filter (\<lambda>(a, skill_count). skill_count > 5) groups"

definition credentialHarvesters :: "(string \<times> nat) list \<Rightarrow> (string \<times> nat) list" where
  "credentialHarvesters groups = filter (\<lambda>(a, suspicious_skills). suspicious_skills > 2) groups"

text \<open>The columns that the two statements name.\<close>

definition rapidCreatorsColumns :: "(string \<times> string) list" where
  "rapidCreatorsColumns = [(''skills'', ''agent_id''), (''skills'', ''created_at'')]"

definition credentialHarvestersColumns :: "(string \<times> string) list" where
  "credentialHarvestersColumns =
     [(''skills'', ''author''), (''skills'', ''name''), (''security_alerts'', ''metadata''),
      (''security_alerts'', ''type''), (''security_alerts'', ''created_at'')]"

definition rapidCreationThreat :: "agent_id \<times> nat \<Rightarrow> threat" where
  "rapidCreationThreat agent =
     \<lparr> threat_type = ''agent_behavior'',
       subtype = ''rapid_skill_creation'',
       agent_id = Some (fst agent),
       agent_name = None,
       author = None,
       risk_score = min 0.9 (0.3 + real (snd agent) * 0.1),
       threat_metadata = RapidCreation (snd agent) 7,
       correlation_boost = None \<rparr>"

definition credentialHarvestingThreat :: "string \<times> nat \<Rightarrow> threat" where
  "credentialHarvestingThreat agent =
     \<lparr> threat_type = ''agent_behavior'',
       subtype = ''credential_harvesting'',
       agent_id = None,
       agent_name = Some (fst agent),
       author = None,
       risk_score = 0.8 + real (snd agent) * 0.05,
       threat_metadata = CredentialHarvesting (snd agent),
       correlation_boost = None \<rparr>"

text \<open>
  The body of every detector is one try block whose catch block logs the error; the
  detector returns the signals pushed before the throw. A rejected first query leaves
  none, and the second query is not sent.
\<close>

definition analyzeAgentBehavior ::
  "schema \<Rightarrow> (agent_id \<times> nat) list \<Rightarrow> (string \<times> nat) list \<Rightarrow> threat list" where
  "analyzeAgentBehavior sch skillGroups alertGroups =
     (case query sch rapidCreatorsColumns (Inr (rapidCreators skillGroups)) of
        Inl error \<Rightarrow> []
      | Inr rapidRows \<Rightarrow>
          (let threats = map rapidCreationThreat rapidRows in
           case query sch credentialHarvestersColumns (Inr (credentialHarvesters alertGroups)) of
             Inl error \<Rightarrow> threats
           | Inr harvesterRows \<Rightarrow> threats @ map credentialHarvestingThreat harvesterRows))"

subsection \<open>analyzeSupplyChainRisks\<close>







subsection \<open>analyzeNetworkPatterns\<close>








subsection \<open>detectAnomalies\<close>













subsection \<open>correlateThreats\<close>

text \<open>
  The key of a signal is \<^verbatim>\<open>threat.agent_id || threat.agent_name || threat.author || 'unknown'\<close>:
  the first operand that is not falsy, where an absent field, the number 0 and the empty
  string are falsy. A Map distinguishes a number from a string.
\<close>

datatype correlation_key = KeyNum nat | KeyStr string

definition truthyNum :: "nat option \<Rightarrow> correlation_key option" where
  "truthyNum x = (case x of Some n \<Rightarrow> if n = 0 then None else Some (KeyNum n) | None \<Rightarrow> None)"

definition truthyStr :: "string option \<Rightarrow> correlation_key option" where
  "truthyStr x = (case x of Some s \<Rightarrow> if s = [] then None else Some (KeyStr s) | None \<Rightarrow> None)"

definition threatKey :: "threat \<Rightarrow> correlation_key" where
  "threatKey t =
     (case truthyNum (agent_id t) of Some k \<Rightarrow> k | None \<Rightarrow>
     (case truthyStr (agent_name t) of Some k \<Rightarrow> k | None \<Rightarrow>
     (case truthyStr (author t) of Some k \<Rightarrow> k | None \<Rightarrow> KeyStr ''unknown'')))"

text \<open>
  The correlation map holds, per key and in insertion order, the signals pushed under it.
  The arrays in the map hold the very objects of the input array, which the second pass
  mutates; so the model keeps the input array as the store and the map holds indices
  into it.
\<close>

type_synonym correlation_map = "(correlation_key \<times> nat list) list"

definition buildCorrelationMap :: "threat list \<Rightarrow> correlation_map" where
  "buildCorrelationMap threats =
     foldl (\<lambda>m i. mapPush (threatKey (threats ! i)) i m) [] [0..<length threats]"

definition boostThreat :: "real \<Rightarrow> threat \<Rightarrow> threat" where
  "boostThreat boostFactor t =
     t\<lparr> risk_score := min (risk_score t * boostFactor) 1.0,
        correlation_boost := Some boostFactor \<rparr>"

definition boostGroup :: "threat list \<Rightarrow> nat list \<Rightarrow> threat list" where
  "boostGroup store agentThreats =
     (if length agentThreats > 1 then
        (let boostFactor = 1 + (real (length agentThreats) - 1) * 0.2 in
         foldl (\<lambda>st i. st[i := boostThreat boostFactor (st ! i)]) store agentThreats)
      else store)"

definition boostAll :: "threat list \<Rightarrow> threat list" where
  "boostAll threats = foldl boostGroup threats (map snd (buildCorrelationMap threats))"

text \<open>
  \<^verbatim>\<open>threats.sort((a, b) => b.risk_score - a.risk_score)\<close>: a stable sort by descending risk.
\<close>

definition correlateThreats :: "threat list \<Rightarrow> threat list" where
  "correlateThreats threats = sort_key (\<lambda>t. - risk_score t) (boostAll threats)"

subsection \<open>analyze\<close>





text \<open>The installed tables with a column agent\_id added to skills.\<close>

definition schemaWithAgentId :: schema where
  "schemaWithAgentId = map (\<lambda>(t, columns). if t = ''skills'' then (t, ''agent_id'' # columns)
                                          else (t, columns)) installedSchema"

text \<open>The number of signals of the input that carry a given key.\<close>

definition signalCount :: "threat list \<Rightarrow> correlation_key \<Rightarrow> nat" where
  "signalCount threats k = length (filter (\<lambda>t. threatKey t = k) threats)"

definition groupOf :: "threat list \<Rightarrow> nat \<Rightarrow> correlation_key \<Rightarrow> nat list" where
  "groupOf threats n k = filter (\<lambda>i. threatKey (threats ! i) = k) [0..<n]"

text \<open>
  Three independent signals on the author nova, each of base risk 0.5: three skills
  updated within an hour of their creation.
\<close>

definition unusualUpdateThreat :: "string \<Rightarrow> threat" where
  "unusualUpdateThreat a =
     \<lparr> threat_type = ''supply_chain'', subtype = ''unusual_update_pattern'',
       agent_id = None, agent_name = None, author = Some a, risk_score = 0.5,
       threat_metadata = NoMetadata, correlation_boost = None \<rparr>"

definition three_signals :: "threat list" where
  "three_signals =
     [unusualUpdateThreat ''nova'', unusualUpdateThreat ''nova'', unusualUpdateThreat ''nova'']"

text \<open>A signal that shares its key with no other, next to a correlated pair.\<close>

definition mixed_signals :: "threat list" where
  "mixed_signals =
     [unusualUpdateThreat ''nova'', rapidCreationThreat (4, 6), unusualUpdateThreat ''nova'']"

section \<open>Interaction graph (src/analyzers/network\_analyzer.js)\<close>

text \<open>
  An edge id is the template string \<^verbatim>\<open>`${min}-${max}-kind`\<close>; it is modelled as the triple
  it is built from.
\<close>

type_synonym edge_id = "agent_id \<times> agent_id \<times> string"

record node =
  node_id :: agent_id
  node_name :: string
  node_platform :: string
  reputation :: real
  activity_level :: nat

datatype edge_metadata =
  TemporalMeta (overlapping_hours: "nat list") (correlation_type: string)
| OtherMeta

record edge =
  edge_id :: edge_id
  source :: agent_id
  target :: agent_id
  edge_type :: string
  weight :: real
  metadata :: edge_metadata

subsection \<open>findAmplificationNetworks\<close>

record amplification_pattern =
  pattern_type :: string
  center_agent :: agent_id
  connected_agents :: "agent_id list"
  strength :: real
  total_connections :: nat
  high_weight_connections :: nat
  pattern :: string

definition connectedEdgesOf :: "agent_id \<Rightarrow> edge list \<Rightarrow> edge list" where
  "connectedEdgesOf n edges = filter (\<lambda>e. source e = n \<or> target e = n) edges"

definition avgWeightOf :: "edge list \<Rightarrow> real" where
  "avgWeightOf connectedEdges =
     foldl (\<lambda>sum e. sum + weight e) 0 connectedEdges / real (length connectedEdges)"

definition highWeightConnectionsOf :: "edge list \<Rightarrow> edge list" where
  "highWeightConnectionsOf connectedEdges =
     filter (\<lambda>e. weight e > avgWeightOf connectedEdges * 1.5) connectedEdges"

text \<open>The body of the loop over the nodes: the patterns pushed for one node.\<close>

definition amplificationAt :: "node \<Rightarrow> edge list \<Rightarrow> amplification_pattern list" where
  "amplificationAt n edges =
     (let connectedEdges = connectedEdgesOf (node_id n) edges in
      if length connectedEdges > 5 then
        (let avgWeight = avgWeightOf connectedEdges;
             highWeightConnections = highWeightConnectionsOf connectedEdges in
         if real (length highWeightConnections) \<ge> real (length connectedEdges) * 0.7 then
           [\<lparr> pattern_type = ''amplification_network'',
              center_agent = node_id n,
              connected_agents =
                map (\<lambda>e. if source e = node_id n then target e else source e) connectedEdges,
              strength = avgWeight,
              total_connections = length connectedEdges,
              high_weight_connections = length highWeightConnections,
              pattern = ''centralized_amplification'' \<rparr>]
         else [])
      else [])"

fun findAmplificationLoop ::
  "node list \<Rightarrow> edge list \<Rightarrow> amplification_pattern list \<Rightarrow> amplification_pattern list" where
  "findAmplificationLoop [] edges patterns = patterns"
| "findAmplificationLoop (n # ns) edges patterns =
     findAmplificationLoop ns edges (patterns @ amplificationAt n edges)"

definition findAmplificationNetworks :: "node list \<Rightarrow> edge list \<Rightarrow> amplification_pattern list" where
  "findAmplificationNetworks nodes edges = findAmplificationLoop nodes edges []"

text \<open>A hub with six incident edges, one of them much heavier than the others.\<close>

definition star_node :: "agent_id \<Rightarrow> node" where
  "star_node i = \<lparr> node_id = i, node_name = ''agent'', node_platform = ''moltbook'',
                   reputation = 0, activity_level = 1 \<rparr>"

definition star_edge :: "agent_id \<Rightarrow> real \<Rightarrow> edge" where
  "star_edge j w = \<lparr> edge_id = (1, j, ''submolt''), source = 1, target = j,
                     edge_type = ''submolt_collaboration'', weight = w, metadata = OtherMeta \<rparr>"

definition star_edges :: "edge list" where
  "star_edges = [star_edge 2 1, star_edge 3 1, star_edge 4 1, star_edge 5 1,
                 star_edge 6 1, star_edge 7 10]"

subsection \<open>detectCommunityStructures and exploreWeightedCommunity\<close>

text \<open>
  The adjacency list is a Map from node id to the array of its \<^verbatim>\<open>{nodeId, weight}\<close>
  entries, here an association list in insertion order with pairs as entries.
\<close>

type_synonym adj_list = "(agent_id \<times> (agent_id \<times> real) list) list"

definition adjHas :: "adj_list \<Rightarrow> agent_id \<Rightarrow> bool" where
  "adjHas m k \<longleftrightarrow> map_of m k \<noteq> None"

definition adjGet :: "adj_list \<Rightarrow> agent_id \<Rightarrow> (agent_id \<times> real) list" where
  "adjGet m k = (case map_of m k of None \<Rightarrow> [] | Some v \<Rightarrow> v)"

definition adjPush :: "agent_id \<Rightarrow> agent_id \<times> real \<Rightarrow> adj_list \<Rightarrow> adj_list" where
  "adjPush k x m = mapSet k (adjGet m k @ [x]) m"

definition addAdjEdge :: "adj_list \<Rightarrow> edge \<Rightarrow> adj_list" where
  "addAdjEdge m e =
     (if adjHas m (source e) \<and> adjHas m (target e)
      then adjPush (target e) (source e, weight e) (adjPush (source e) (target e, weight e) m)
      else m)"

definition buildAdjList :: "node list \<Rightarrow> edge list \<Rightarrow> adj_list" where
  "buildAdjList c_nodes c_edges =
     foldl addAdjEdge (foldl (\<lambda>m n. mapSet (node_id n) [] m) [] c_nodes) c_edges"

text \<open>
  The community record that exploreWeightedCommunity builds, and the scan of one node's
  neighbours: a neighbour not yet visited and with weight above the threshold is pushed
  on the queue, its weight added and the edge counted.
\<close>

record explored =
  c_nodes :: "agent_id list"
  c_total_weight :: real
  c_edges :: nat

definition scanNeighbor ::
  "agent_id set \<Rightarrow> real \<Rightarrow> agent_id list \<times> explored \<Rightarrow> agent_id \<times> real
     \<Rightarrow> agent_id list \<times> explored" where
  "scanNeighbor visited threshold qc neighbor =
     (if fst neighbor \<notin> visited \<and> snd neighbor > threshold
      then (fst qc @ [fst neighbor],
            (snd qc)\<lparr> c_total_weight := c_total_weight (snd qc) + snd neighbor,
                      c_edges := c_edges (snd qc) + 1 \<rparr>)
      else qc)"

lemma fst_scanNeighbor:
  "set (fst (scanNeighbor visited threshold qc neighbor)) \<subseteq> set (fst qc) \<union> {fst neighbor}"
  by (auto simp: scanNeighbor_def)

lemma set_scan:
  "set (fst (foldl (scanNeighbor visited threshold) qc neighbors))
     \<subseteq> set (fst qc) \<union> fst ` set neighbors"
proof (induction neighbors arbitrary: qc)
  case Nil
  show ?case by simp
next
  case (Cons n ns)
  have "set (fst (foldl (scanNeighbor visited threshold) (scanNeighbor visited threshold qc n) ns))
          \<subseteq> set (fst (scanNeighbor visited threshold qc n)) \<union> fst ` set ns"
    by (rule Cons.IH)
  with fst_scanNeighbor [of visited threshold qc n] show ?case by auto
qed

text \<open>
  The while loop over the queue. It ends because every iteration either drops a visited
  node from the queue or visits a new node, and only the finitely many ids of the queue
  and of the adjacency list can be visited.
\<close>

definition universe :: "adj_list \<Rightarrow> agent_id set" where
  "universe adj = (\<Union>kv \<in> set adj. fst ` set (snd kv))"

lemma finite_universe: "finite (universe adj)"
  by (simp add: universe_def)

lemma adjGet_universe: "fst ` set (adjGet adj k) \<subseteq> universe adj"
proof (cases "map_of adj k")
  case None
  then show ?thesis by (simp add: adjGet_def)
next
  case (Some v)
  then have "(k, v) \<in> set adj" by (rule map_of_SomeD)
  then have "fst ` set v \<subseteq> universe adj" by (force simp: universe_def)
  with Some show ?thesis by (simp add: adjGet_def)
qed

function exploreLoop ::
  "adj_list \<Rightarrow> real \<Rightarrow> agent_id list \<Rightarrow> agent_id set \<Rightarrow> explored \<Rightarrow> agent_id set \<times> explored" where
  "exploreLoop adj threshold [] visited community = (visited, community)"
| "exploreLoop adj threshold (nodeId # queue) visited community =
     (if nodeId \<in> visited then exploreLoop adj threshold queue visited community
      else
        let visited' = insert nodeId visited;
            community' = community\<lparr> c_nodes := c_nodes community @ [nodeId] \<rparr>;
            qc = foldl (scanNeighbor visited' threshold) (queue, community') (adjGet adj nodeId)
        in exploreLoop adj threshold (fst qc) visited' (snd qc))"
  by pat_completeness auto
termination
proof (relation "measures [\<lambda>(adj, th, queue, visited, c). card ((universe adj \<union> set queue) - visited),
                           \<lambda>(adj, th, queue, visited, c). length queue]")
  show "wf (measures [\<lambda>(adj, th, queue, visited, c). card ((universe adj \<union> set queue) - visited),
                      \<lambda>(adj, th, queue, visited, c). length queue])"
    by simp
next
  fix adj :: adj_list and threshold :: real and nodeId :: agent_id
    and queue :: "agent_id list" and visited :: "agent_id set" and community :: explored
  assume "nodeId \<in> visited"
  then have "(universe adj \<union> set queue) - visited = (universe adj \<union> set (nodeId # queue)) - visited"
    by auto
  then show "((adj, threshold, queue, visited, community),
              (adj, threshold, nodeId # queue, visited, community))
        \<in> measures [\<lambda>(adj, th, queue, visited, c). card ((universe adj \<union> set queue) - visited),
                     \<lambda>(adj, th, queue, visited, c). length queue]"
    by simp
next
  fix adj :: adj_list and threshold :: real and nodeId :: agent_id
    and queue :: "agent_id list" and visited visited' :: "agent_id set"
    and community community' :: explored and qc :: "agent_id list \<times> explored"
  assume nv: "nodeId \<notin> visited" and v: "visited' = insert nodeId visited"
    and qc: "qc = foldl (scanNeighbor visited' threshold) (queue, community') (adjGet adj nodeId)"
  have "set (fst qc) \<subseteq> set queue \<union> universe adj"
    using set_scan [of visited' threshold "(queue, community')" "adjGet adj nodeId"]
          adjGet_universe [of adj nodeId]
    by (auto simp: qc)
  then have sub: "(universe adj \<union> set (fst qc)) - visited'
                 \<subseteq> (universe adj \<union> set (nodeId # queue)) - visited - {nodeId}"
    by (auto simp: v)
  have fin: "finite ((universe adj \<union> set (nodeId # queue)) - visited)"
    by (simp add: finite_universe)
  have "card ((universe adj \<union> set (fst qc)) - visited')
        \<le> card ((universe adj \<union> set (nodeId # queue)) - visited - {nodeId})"
    using sub fin by (intro card_mono) auto
  also have "\<dots> < card ((universe adj \<union> set (nodeId # queue)) - visited)"
    using nv fin by (intro card_Diff1_less) auto
  finally show "((adj, threshold, fst qc, visited', snd qc),
              (adj, threshold, nodeId # queue, visited, community))
        \<in> measures [\<lambda>(adj, th, queue, visited, c). card ((universe adj \<union> set queue) - visited),
                     \<lambda>(adj, th, queue, visited, c). length queue]"
    by simp
qed

definition exploreWeightedCommunity ::
  "agent_id \<Rightarrow> adj_list \<Rightarrow> agent_id set \<Rightarrow> agent_id set \<times> explored" where
  "exploreWeightedCommunity startNodeId adjList visited =
     exploreLoop adjList 0.3 [startNodeId] visited \<lparr> c_nodes = [], c_total_weight = 0, c_edges = 0 \<rparr>"

text \<open>
  A reported community. Its id, a SHA-256 digest of the member list, is not modelled; but
  generateCommunityId sorts the member array in place, with the default comparison of
  JavaScript (by the decimal strings of the ids), and that sorted array is the one the
  community reports. The dominant type is the first entry of the type counts sorted by
  descending count; the edge types of this program are not integer-like strings, so the
  counts keep their insertion order.
\<close>

record community =
  com_nodes :: "agent_id list"
  com_total_weight :: real
  avg_weight :: real
  density :: real
  dominant_type :: string

function toDecimal :: "nat \<Rightarrow> nat list" where
  "toDecimal n = (if n < 10 then [n] else toDecimal (n div 10) @ [n mod 10])"
  by pat_completeness auto
termination
  by (relation "measure id") auto

definition sortNodeIds :: "agent_id list \<Rightarrow> agent_id list" where
  "sortNodeIds nodeIds = sort_key toDecimal nodeIds"

fun countType :: "string \<Rightarrow> (string \<times> nat) list \<Rightarrow> (string \<times> nat) list" where
  "countType t [] = [(t, 1)]"
| "countType t ((t', c) # m) = (if t' = t then (t', c + 1) # m else (t', c) # countType t m)"

definition getDominantInteractionType :: "agent_id list \<Rightarrow> edge list \<Rightarrow> string" where
  "getDominantInteractionType nodeIds es =
     (let typeCounts =
            foldl (\<lambda>m e. if source e \<in> set nodeIds \<and> target e \<in> set nodeIds
                          then countType (edge_type e) m else m) [] es
      in case sort_key (\<lambda>(t, c). - int c) typeCounts of
           [] \<Rightarrow> ''unknown''
         | (t, c) # rest \<Rightarrow> if t = [] then ''unknown'' else t)"

definition makeCommunity :: "explored \<Rightarrow> edge list \<Rightarrow> community" where
  "makeCommunity c es =
     (let sorted = sortNodeIds (c_nodes c) in
      \<lparr> com_nodes = sorted,
        com_total_weight = c_total_weight c,
        avg_weight = c_total_weight c / real (c_edges c),
        density = real (c_edges c) / (real (length sorted) * (real (length sorted) - 1) / 2),
        dominant_type = getDominantInteractionType sorted es \<rparr>)"

fun detectLoop ::
  "node list \<Rightarrow> adj_list \<Rightarrow> edge list \<Rightarrow> agent_id set \<Rightarrow> community list \<Rightarrow> community list" where
  "detectLoop [] adjList es visited communities = communities"
| "detectLoop (n # ns) adjList es visited communities =
     (if node_id n \<notin> visited then
        (let vc = exploreWeightedCommunity (node_id n) adjList visited in
         if length (c_nodes (snd vc)) > 1
         then detectLoop ns adjList es (fst vc) (communities @ [makeCommunity (snd vc) es])
         else detectLoop ns adjList es (fst vc) communities)
      else detectLoop ns adjList es visited communities)"

definition detectCommunityStructures :: "node list \<Rightarrow> edge list \<Rightarrow> community list" where
  "detectCommunityStructures ns es =
     sort_key (\<lambda>c. - (real (length (com_nodes c)) * avg_weight c))
       (detectLoop ns (buildAdjList ns es) es {} [])"

text \<open>
  Five nodes: 1, 2 and 3 pairwise connected with weight 0.5, 4 connected to 5 with
  weight 0.1, and no other edge.
\<close>

definition mkEdge :: "agent_id \<Rightarrow> agent_id \<Rightarrow> real \<Rightarrow> edge" where
  "mkEdge a b w = \<lparr> edge_id = (min a b, max a b, ''submolt''), source = a, target = b,
                    edge_type = ''submolt_collaboration'', weight = w, metadata = OtherMeta \<rparr>"

definition five_nodes :: "node list" where
  "five_nodes = map star_node [1, 2, 3, 4, 5]"

definition five_edges :: "edge list" where
  "five_edges = [mkEdge 1 2 0.5, mkEdge 1 3 0.5, mkEdge 2 3 0.5, mkEdge 4 5 0.1]"

text \<open>Two agents joined by an edge of weight above 0.3, in either direction.\<close>

definition strongLink :: "edge list \<Rightarrow> (agent_id \<times> agent_id) set" where
  "strongLink es =
     {(a, b). \<exists>e \<in> set es. weight e > 0.3 \<and>
                ((source e = a \<and> target e = b) \<or> (source e = b \<and> target e = a))}"

definition strongAdj :: "adj_list \<Rightarrow> real \<Rightarrow> (agent_id \<times> agent_id) set" where
  "strongAdj adj threshold = {(a, b). \<exists>w. (b, w) \<in> set (adjGet adj a) \<and> w > threshold}"

definition communityOk :: "edge list \<Rightarrow> community \<Rightarrow> bool" where
  "communityOk es c \<longleftrightarrow>
     1 < length (com_nodes c) \<and>
     (\<forall>a \<in> set (com_nodes c). \<forall>b \<in> set (com_nodes c). (a, b) \<in> (strongLink es)\<^sup>*)"

text \<open>
  The invariant of the outer loop of detectCommunityStructures, for the relation \<open>A\<close> of the
  adjacency list and the node ids \<open>N\<close>: the visited set is closed under \<open>A\<close>, every
  community found so far lies within the nodes and is closed under \<open>A\<close>, and every
  visited node with a neighbour other than itself is in a community.
\<close>

definition closedUnder :: "(agent_id \<times> agent_id) set \<Rightarrow> agent_id set \<Rightarrow> bool" where
  "closedUnder A V \<longleftrightarrow> (\<forall>a \<in> V. \<forall>b. (a, b) \<in> A \<longrightarrow> b \<in> V)"

definition detectInv ::
  "(agent_id \<times> agent_id) set \<Rightarrow> agent_id set \<Rightarrow> agent_id set \<Rightarrow> community list \<Rightarrow> bool" where
  "detectInv A N V cs \<longleftrightarrow>
     closedUnder A V \<and>
     (\<forall>c \<in> set cs. set (com_nodes c) \<subseteq> N \<and> closedUnder A (set (com_nodes c))) \<and>
     (\<forall>a \<in> V. (\<exists>b. b \<noteq> a \<and> (a, b) \<in> A) \<longrightarrow> (\<exists>c \<in> set cs. a \<in> set (com_nodes c)))"

subsection \<open>addTemporalInteractionEdges\<close>

text \<open>
  The input \<open>posts\<close> lists, for every post of the last 14 days, its agent and the hour of
  day of its creation. The query groups them by agent and hour and keeps the groups of
  more than 2 posts (HAVING COUNT(*) > 2); the order of its rows is not specified by SQL
  and is fixed here as the order of first occurrence.
\<close>

definition activityCount :: "(agent_id \<times> nat) list \<Rightarrow> agent_id \<Rightarrow> nat \<Rightarrow> nat" where
  "activityCount posts a h = length (filter (\<lambda>p. p = (a, h)) posts)"

record activity_pattern =
  pattern_agent :: agent_id
  activity_hour :: nat
  activity_count :: nat

definition temporalPatterns :: "(agent_id \<times> nat) list \<Rightarrow> activity_pattern list" where
  "temporalPatterns posts =
     filter (\<lambda>r. activity_count r > 2)
       (map (\<lambda>p. \<lparr> pattern_agent = fst p, activity_hour = snd p,
                    activity_count = activityCount posts (fst p) (snd p) \<rparr>)
          (remdups posts))"

definition hourlyActivity :: "activity_pattern list \<Rightarrow> (nat \<times> (agent_id \<times> nat) list) list" where
  "hourlyActivity rows =
     foldl (\<lambda>m r. mapPush (activity_hour r) (pattern_agent r, activity_count r) m) [] rows"

text \<open>The pairs \<^verbatim>\<open>(agents[i], agents[j])\<close> with i < j, in the order the two loops visit them.\<close>

fun pairsOf :: "'a list \<Rightarrow> ('a \<times> 'a) list" where
  "pairsOf [] = []"
| "pairsOf (x # xs) = map (Pair x) xs @ pairsOf xs"

definition nodesHas :: "node list \<Rightarrow> agent_id \<Rightarrow> bool" where
  "nodesHas ns a = list_ex (\<lambda>n. node_id n = a) ns"

text \<open>
  The edges Map, from edge id to edge. For an edge id already present the pass pushes the
  hour on \<^verbatim>\<open>edge.metadata.overlapping_hours\<close> and adds 0.2 to the weight; on an edge without
  that array the push throws a TypeError, which is \<open>None\<close> here.
\<close>

type_synonym edge_map = "(edge_id \<times> edge) list"

definition temporalEdgeId :: "agent_id \<Rightarrow> agent_id \<Rightarrow> edge_id" where
  "temporalEdgeId a b = (min a b, max a b, ''temporal'')"

definition temporalPair ::
  "node list \<Rightarrow> nat \<Rightarrow> edge_map \<Rightarrow> (agent_id \<times> nat) \<times> (agent_id \<times> nat) \<Rightarrow> edge_map option" where
  "temporalPair ns hour es p =
     (let agent1 = fst p; agent2 = snd p in
      if nodesHas ns (fst agent1) \<and> nodesHas ns (fst agent2) then
        (let edgeId = temporalEdgeId (fst agent1) (fst agent2) in
         case map_of es edgeId of
           None \<Rightarrow>
             Some (es @ [(edgeId,
               \<lparr> edge_id = edgeId, source = fst agent1, target = fst agent2,
                 edge_type = ''temporal_correlation'', weight = 0.4,
                 metadata = TemporalMeta [hour] ''activity_timing'' \<rparr>)])
         | Some e \<Rightarrow>
             (case metadata e of
                TemporalMeta hours ct \<Rightarrow>
                  Some (mapSet edgeId
                          (e\<lparr> metadata := TemporalMeta (hours @ [hour]) ct,
                             weight := weight e + 0.2 \<rparr>) es)
              | OtherMeta \<Rightarrow> None))
      else Some es)"

definition temporalHour ::
  "node list \<Rightarrow> edge_map \<Rightarrow> nat \<times> (agent_id \<times> nat) list \<Rightarrow> edge_map option" where
  "temporalHour ns es bucket =
     (let hour = fst bucket; agents = snd bucket in
      if length agents > 1 then foldOption (temporalPair ns hour) es (pairsOf agents)
      else Some es)"

definition addTemporalInteractionEdges ::
  "node list \<Rightarrow> (agent_id \<times> nat) list \<Rightarrow> edge_map \<Rightarrow> edge_map option" where
  "addTemporalInteractionEdges ns posts es =
     foldOption (temporalHour ns) es (hourlyActivity (temporalPatterns posts))"

text \<open>
  The hours of day in which both agents have more than 2 posts, and the weight the result
  holds for an edge id.
\<close>

definition overlappingHours :: "(agent_id \<times> nat) list \<Rightarrow> agent_id \<Rightarrow> agent_id \<Rightarrow> nat list" where
  "overlappingHours posts a b =
     filter (\<lambda>h. activityCount posts a h > 2 \<and> activityCount posts b h > 2)
       (remdups (map snd posts))"

definition temporalWeight :: "edge_map \<Rightarrow> edge_id \<Rightarrow> real option" where
  "temporalWeight es i = map_option weight (map_of es i)"

definition noTemporalIds :: "edge_map \<Rightarrow> bool" where
  "noTemporalIds es \<longleftrightarrow> list_all (\<lambda>(i, e). snd (snd i) \<noteq> ''temporal'') es"

definition temporalMetaOk :: "edge_map \<Rightarrow> bool" where
  "temporalMetaOk es \<longleftrightarrow>
     (\<forall>i e. map_of es i = Some e \<longrightarrow> snd (snd i) = ''temporal'' \<longrightarrow> metadata e \<noteq> OtherMeta)"

definition hit :: "node list \<Rightarrow> edge_id \<Rightarrow> (agent_id \<times> nat) \<times> (agent_id \<times> nat) \<Rightarrow> bool" where
  "hit ns i p \<longleftrightarrow>
     nodesHas ns (fst (fst p)) \<and> nodesHas ns (fst (snd p))
     \<and> temporalEdgeId (fst (fst p)) (fst (snd p)) = i"

definition countedWeight :: "real option \<Rightarrow> nat \<Rightarrow> real option" where
  "countedWeight w k =
     (case w of None \<Rightarrow> if k = 0 then None else Some (0.4 + 0.2 * (real k - 1))
              | Some v \<Rightarrow> Some (v + 0.2 * real k))"

definition bucketHits :: "node list \<Rightarrow> edge_id \<Rightarrow> nat \<times> (agent_id \<times> nat) list \<Rightarrow> nat" where
  "bucketHits ns i bucket = length (filter (hit ns i) (pairsOf (snd bucket)))"

definition bucketOf :: "activity_pattern list \<Rightarrow> nat \<Rightarrow> (agent_id \<times> nat) list" where
  "bucketOf rows h =
     map (\<lambda>r. (pattern_agent r, activity_count r)) (filter (\<lambda>r. activity_hour r = h) rows)"

text \<open>Agents 1 and 2 with three posts each in hour 5, and nothing else in common.\<close>

definition one_hour_posts :: "(agent_id \<times> nat) list" where
  "one_hour_posts = [(1, 5), (2, 5), (1, 5), (2, 5), (1, 5), (2, 5), (1, 6), (2, 8)]"

text \<open>Agents 2 and 3 with three posts each in the hours 5, 7 and 9.\<close>

definition three_hour_posts :: "(agent_id \<times> nat) list" where
  "three_hour_posts =
     [(2, 5), (3, 5), (3, 7), (2, 7), (2, 9), (3, 9),
      (2, 5), (3, 5), (3, 7), (2, 7), (2, 9), (3, 9),
      (2, 5), (3, 5), (3, 7), (2, 7), (2, 9), (3, 9)]"


section \<open>Reputation engine (analyzers/reputation\_engine.js)\<close>

subsection \<open>calculateCompositeScore\<close>

text \<open>
  The table agent\_reputation\_scores, one row per (agent\_id, platform), which is the
  conflict target of every upsert of the engine. A score is nullable; the factor breakdown
  is a JSON object of numbers.
\<close>

record reputation_row =
  rs_agent_id :: agent_id
  rs_platform :: string
  score :: "real option"
  factor_breakdown :: "(string \<times> real) list"

text \<open>
  The aliases of the six sub-selects of the query, each the rows of one platform, and a row
  of the join: what each alias is bound to, NULL when the outer join found no partner.
\<close>

datatype score_alias = MB | MX | CC | EQ | SEC | LG

fun platformOf :: "score_alias \<Rightarrow> string" where
  "platformOf MB = ''moltbook''"
| "platformOf MX = ''moltx''"
| "platformOf CC = ''4claw''"
| "platformOf EQ = ''engagement_quality''"
| "platformOf SEC = ''security_record''"
| "platformOf LG = ''longevity''"

type_synonym joined = "score_alias \<Rightarrow> reputation_row option"

definition subSelect :: "reputation_row list \<Rightarrow> score_alias \<Rightarrow> reputation_row list" where
  "subSelect t al = filter (\<lambda>r. rs_platform r = platformOf al) t"

text \<open>
  \<^verbatim>\<open>COALESCE(mb.agent_id, mx.agent_id, ...)\<close> over the aliases joined so far, and the join
  condition that compares it with the agent id of the next sub-select; a NULL equals
  nothing.
\<close>

fun coalesceId :: "score_alias list \<Rightarrow> joined \<Rightarrow> agent_id option" where
  "coalesceId [] j = None"
| "coalesceId (al # als) j = (case j al of Some r \<Rightarrow> Some (rs_agent_id r) | None \<Rightarrow> coalesceId als j)"

definition joinOn :: "score_alias list \<Rightarrow> joined \<Rightarrow> reputation_row \<Rightarrow> bool" where
  "joinOn prev l r \<longleftrightarrow> coalesceId prev l = Some (rs_agent_id r)"

text \<open>
  A FULL OUTER JOIN: the matching pairs, then the left rows without a partner, then the
  right rows without a partner.
\<close>

definition nullRow :: joined where
  "nullRow = (\<lambda>al. None)"

definition joinPut :: "score_alias \<Rightarrow> joined \<Rightarrow> reputation_row \<Rightarrow> joined" where
  "joinPut al l r = l(al := Some r)"

definition fullOuterJoin ::
  "score_alias list \<Rightarrow> score_alias \<Rightarrow> joined list \<Rightarrow> reputation_row list \<Rightarrow> joined list" where
  "fullOuterJoin prev al ls rs =
     concat (map (\<lambda>l. map (joinPut al l) (filter (joinOn prev l) rs)) ls)
     @ filter (\<lambda>l. \<not> list_ex (joinOn prev l) rs) ls
     @ map (joinPut al nullRow) (filter (\<lambda>r. \<not> list_ex (\<lambda>l. joinOn prev l r) ls) rs)"

definition joinedScores :: "reputation_row list \<Rightarrow> joined list" where
  "joinedScores t =
     (let j0 = map (joinPut MB nullRow) (subSelect t MB);
          j1 = fullOuterJoin [MB] MX j0 (subSelect t MX);
          j2 = fullOuterJoin [MB, MX] CC j1 (subSelect t CC);
          j3 = fullOuterJoin [MB, MX, CC] EQ j2 (subSelect t EQ);
          j4 = fullOuterJoin [MB, MX, CC, EQ] SEC j3 (subSelect t SEC)
      in fullOuterJoin [MB, MX, CC, EQ, SEC] LG j4 (subSelect t LG))"

text \<open>\<^verbatim>\<open>COALESCE(al.score, 0)\<close>, the selected score and the selected factor breakdown.\<close>

definition scoreOr0 :: "joined \<Rightarrow> score_alias \<Rightarrow> real" where
  "scoreOr0 j al = (case j al of None \<Rightarrow> 0 | Some r \<Rightarrow> (case score r of None \<Rightarrow> 0 | Some v \<Rightarrow> v))"

definition compositeOf :: "joined \<Rightarrow> real" where
  "compositeOf j =
     min 100 (max 0
       (scoreOr0 j MB * 0.20 + scoreOr0 j MX * 0.20 + scoreOr0 j CC * 0.10 +
        scoreOr0 j EQ * 0.25 + scoreOr0 j SEC * 0.20 + scoreOr0 j LG * 0.05))"

definition breakdownOf :: "joined \<Rightarrow> (string \<times> real) list" where
  "breakdownOf j =
     [(''moltbook'', scoreOr0 j MB), (''moltx'', scoreOr0 j MX), (''4claw'', scoreOr0 j CC),
      (''engagement_quality'', scoreOr0 j EQ), (''security'', scoreOr0 j SEC),
      (''longevity'', scoreOr0 j LG)]"

definition compositeRow :: "joined \<Rightarrow> reputation_row option" where
  "compositeRow j =
     (case coalesceId [MB, MX, CC, EQ, SEC, LG] j of
        None \<Rightarrow> None
      | Some a \<Rightarrow> Some \<lparr> rs_agent_id = a, rs_platform = ''composite'',
                          score = Some (compositeOf j), factor_breakdown = breakdownOf j \<rparr>)"

text \<open>
  INSERT ... ON CONFLICT (agent\_id, platform) DO UPDATE SET score, factor\_breakdown.
  PostgreSQL rejects the statement when the selected agent id is NULL or when two selected
  rows have the same key; that is \<open>None\<close>.
\<close>

definition sameKey :: "reputation_row \<Rightarrow> reputation_row \<Rightarrow> bool" where
  "sameKey r x \<longleftrightarrow> rs_agent_id x = rs_agent_id r \<and> rs_platform x = rs_platform r"

definition upsert :: "reputation_row list \<Rightarrow> reputation_row \<Rightarrow> reputation_row list" where
  "upsert t r =
     (if list_ex (sameKey r) t
      then map (\<lambda>x. if sameKey r x
                     then x\<lparr> score := score r, factor_breakdown := factor_breakdown r \<rparr>
                     else x) t
      else t @ [r])"

fun sequenceRows :: "'a option list \<Rightarrow> 'a list option" where
  "sequenceRows [] = Some []"
| "sequenceRows (x # xs) =
     (case x of None \<Rightarrow> None
      | Some y \<Rightarrow> (case sequenceRows xs of None \<Rightarrow> None | Some ys \<Rightarrow> Some (y # ys)))"

definition calculateCompositeScore :: "reputation_row list \<Rightarrow> reputation_row list option" where
  "calculateCompositeScore t =
     (case sequenceRows (map compositeRow (joinedScores t)) of
        None \<Rightarrow> None
      | Some rows \<Rightarrow>
          if distinct (map rs_agent_id rows) then Some (foldl upsert t rows) else None)"

text \<open>Reading the table, and the notions the statement of the property uses.\<close>

definition findRow :: "reputation_row list \<Rightarrow> agent_id \<Rightarrow> string \<Rightarrow> reputation_row option" where
  "findRow t a p = find (\<lambda>r. rs_agent_id r = a \<and> rs_platform r = p) t"

definition keysDistinct :: "reputation_row list \<Rightarrow> bool" where
  "keysDistinct t \<longleftrightarrow> distinct (map (\<lambda>r. (rs_agent_id r, rs_platform r)) t)"

definition lookupAlias :: "reputation_row list \<Rightarrow> agent_id \<Rightarrow> score_alias \<Rightarrow> reputation_row option" where
  "lookupAlias t a al = findRow t a (platformOf al)"

definition rowFor :: "reputation_row list \<Rightarrow> score_alias list \<Rightarrow> agent_id \<Rightarrow> joined" where
  "rowFor t P a = (\<lambda>al. if al \<in> set P then lookupAlias t a al else None)"

definition hasAny :: "reputation_row list \<Rightarrow> score_alias list \<Rightarrow> agent_id \<Rightarrow> bool" where
  "hasAny t P a \<longleftrightarrow> list_ex (\<lambda>al. lookupAlias t a al \<noteq> None) P"

definition joinInv :: "reputation_row list \<Rightarrow> score_alias list \<Rightarrow> joined list \<Rightarrow> bool" where
  "joinInv t P ls \<longleftrightarrow>
     distinct (map (coalesceId P) ls) \<and>
     set ls = rowFor t P ` {a. hasAny t P a}"

definition joinLeft :: "score_alias list \<Rightarrow> score_alias \<Rightarrow> reputation_row list \<Rightarrow> joined \<Rightarrow> joined" where
  "joinLeft prev al rs l = (case find (joinOn prev l) rs of Some r \<Rightarrow> joinPut al l r | None \<Rightarrow> l)"

definition unmatched :: "score_alias list \<Rightarrow> joined list \<Rightarrow> reputation_row \<Rightarrow> bool" where
  "unmatched prev ls r \<longleftrightarrow> \<not> list_ex (\<lambda>l. joinOn prev l r) ls"

definition subScore :: "reputation_row list \<Rightarrow> agent_id \<Rightarrow> string \<Rightarrow> real" where
  "subScore t a p =
     (case findRow t a p of None \<Rightarrow> 0
      | Some r \<Rightarrow> (case score r of None \<Rightarrow> 0 | Some v \<Rightarrow> v))"

definition hasSubScore :: "reputation_row list \<Rightarrow> agent_id \<Rightarrow> bool" where
  "hasSubScore t a \<longleftrightarrow>
     list_ex (\<lambda>r. rs_agent_id r = a \<and>
                rs_platform r \<in> set [''moltbook'', ''moltx'', ''4claw'', ''engagement_quality'',
                                     ''security_record'', ''longevity'']) t"

definition breakdownValue :: "(string \<times> real) list \<Rightarrow> string \<Rightarrow> real" where
  "breakdownValue bd k = (case map_of bd k of None \<Rightarrow> 0 | Some v \<Rightarrow> v)"

definition reconstructComposite :: "(string \<times> real) list \<Rightarrow> real" where
  "reconstructComposite bd =
     min 100 (max 0
       (0.20 * breakdownValue bd ''moltbook'' + 0.20 * breakdownValue bd ''moltx'' +
        0.10 * breakdownValue bd ''4claw'' + 0.25 * breakdownValue bd ''engagement_quality'' +
        0.20 * breakdownValue bd ''security'' + 0.05 * breakdownValue bd ''longevity''))"

definition compositeFor :: "reputation_row list \<Rightarrow> agent_id \<Rightarrow> reputation_row" where
  "compositeFor t a =
     \<lparr> rs_agent_id = a, rs_platform = ''composite'',
       score = Some (compositeOf (rowFor t [MB, MX, CC, EQ, SEC, LG] a)),
       factor_breakdown = breakdownOf (rowFor t [MB, MX, CC, EQ, SEC, LG] a) \<rparr>"

text \<open>A table with sub-scores of three agents and two composite rows of an earlier run.\<close>

definition mkRow :: "agent_id \<Rightarrow> string \<Rightarrow> real \<Rightarrow> reputation_row" where
  "mkRow a p s = \<lparr> rs_agent_id = a, rs_platform = p, score = Some s, factor_breakdown = [] \<rparr>"

definition sample_scores :: "reputation_row list" where
  "sample_scores =
     [mkRow 1 ''moltbook'' 80, mkRow 1 ''security_record'' 100, mkRow 2 ''moltx'' 50,
      mkRow 1 ''composite'' 3, mkRow 3 ''longevity'' 40, mkRow 2 ''security_record'' 70,
      mkRow 3 ''moltbook'' 10, mkRow 4 ''composite'' 7]"

section \<open>Maps as association lists\<close>

lemma map_of_mapSet: "map_of (mapSet k v m) = (map_of m)(k \<mapsto> v)"
  by (induction m) (auto simp: fun_eq_iff)

lemma map_of_snoc_new: "map_of m k = None \<Longrightarrow> map_of (m @ [(k, v)]) = (map_of m)(k \<mapsto> v)"
  by (auto simp: fun_eq_iff map_add_def split: option.splits)

lemma fst_mapPush:
  "map fst (mapPush k v m) = (if k \<in> fst ` set m then map fst m else map fst m @ [k])"
proof (induction m)
  case Nil
  show ?case by simp
next
  case (Cons kg m)
  obtain k' g where kg: "kg = (k', g)" by (cases kg)
  show ?case
  proof (cases "k' = k")
    case True
    then show ?thesis by (simp add: kg)
  next
    case False
    with Cons show ?thesis by (simp add: kg)
  qed
qed

lemma map_of_mapPush:
  "map_of (mapPush k v m) =
     (map_of m)(k \<mapsto> (case map_of m k of None \<Rightarrow> [v] | Some g \<Rightarrow> g @ [v]))"
  by (induction m) (auto simp: fun_eq_iff)

lemma foldl_mapPush:
  fixes f :: "'x \<Rightarrow> 'k" and g :: "'x \<Rightarrow> 'v"
  defines "m xs \<equiv> foldl (\<lambda>m x. mapPush (f x) (g x) m) [] xs"
  shows "distinct (map fst (m xs)) \<and> set (map fst (m xs)) = f ` set xs \<and>
         (\<forall>k. map_of (m xs) k = (if filter (\<lambda>x. f x = k) xs = [] then None
                                 else Some (map g (filter (\<lambda>x. f x = k) xs))))"
proof (induction xs rule: rev_induct)
  case Nil
  show ?case by (simp add: m_def)
next
  case (snoc x xs)
  have step: "m (xs @ [x]) = mapPush (f x) (g x) (m xs)" by (simp add: m_def)
  have d: "distinct (map fst (m (xs @ [x])))"
    using snoc by (simp add: step fst_mapPush)
  have s: "set (map fst (m (xs @ [x]))) = f ` set (xs @ [x])"
    using snoc by (auto simp: step fst_mapPush)
  have "map_of (m (xs @ [x])) k =
          (if filter (\<lambda>x. f x = k) (xs @ [x]) = [] then None
           else Some (map g (filter (\<lambda>x. f x = k) (xs @ [x]))))" for k
    using snoc by (simp add: step map_of_mapPush)
  with d s show ?case by blast
qed

lemma sum_list_indicator:
  "sum_list (map (\<lambda>x. if P x then 1 else 0) xs) = length (filter P xs)"
  by (induction xs) simp_all

lemma same_length_distinct:
  assumes "distinct xs" "distinct ys" "set xs = set ys"
  shows "length xs = length ys"
  using assms by (metis distinct_card)

section \<open>Properties of the string similarity\<close>

lemma edit_distance_Nil2 [simp]: "edit_distance xs [] = length xs"
  by (cases xs) simp_all

lemma aligned_edit_distance: "aligned (edit_distance xs ys) xs ys"
proof (induction xs ys rule: edit_distance.induct)
  case (1 ys)
  show ?case by (induction ys) (auto intro: aligned.intros)
next
  case (2 x xs)
  have "aligned (length zs) zs []" for zs :: "'a list"
    by (induction zs) (auto intro: aligned.intros)
  from this [of "x # xs"] show ?case by simp
next
  case (3 x xs y ys)
  let ?a = "edit_distance xs (y # ys) + 1" and ?b = "edit_distance (x # xs) ys + 1"
  let ?c = "edit_distance xs ys + (if x = y then 0 else 1)"
  have a: "aligned ?a (x # xs) (y # ys)" using 3(1) by (auto intro: aligned.del)
  have b: "aligned ?b (x # xs) (y # ys)" using 3(2) by (auto intro: aligned.ins)
  have c: "aligned ?c (x # xs) (y # ys)"
    using 3(3) by (auto intro: aligned.keep aligned.sub)
  have "min (min ?a ?b) ?c \<in> {?a, ?b, ?c}" by (auto simp: min_def)
  with a b c show ?case by auto
qed

lemma edit_distance_Cons1: "edit_distance (x # xs) ys \<le> Suc (edit_distance xs ys)"
  by (cases ys) auto

lemma edit_distance_Cons2: "edit_distance xs (y # ys) \<le> Suc (edit_distance xs ys)"
  by (cases xs) auto

lemma edit_distance_Cons_Cons:
  "edit_distance (x # xs) (y # ys) \<le> edit_distance xs ys + (if x = y then 0 else 1)"
  by simp

lemma edit_distance_least: "aligned n xs ys \<Longrightarrow> edit_distance xs ys \<le> n"
proof (induction rule: aligned.induct)
  case stop
  show ?case by simp
next
  case (del n xs ys x)
  with edit_distance_Cons1 [of x xs ys] show ?case by linarith
next
  case (ins n xs ys y)
  with edit_distance_Cons2 [of xs y ys] show ?case by linarith
next
  case (keep n xs ys x)
  have "edit_distance xs ys + (if x = x then 0 else 1) \<le> n" using keep.IH by simp
  with edit_distance_Cons_Cons [of x xs x ys] show ?case by (rule order_trans)
next
  case (sub n xs ys x y)
  have "edit_distance xs ys + (if x = y then 0 else 1) \<le> Suc n" using sub.IH by simp
  with edit_distance_Cons_Cons [of x xs y ys] show ?case by (rule order_trans)
qed

lemma aligned_snoc_delete: "aligned n xs ys \<Longrightarrow> aligned (Suc n) (xs @ [x]) ys"
  by (induction rule: aligned.induct) (auto intro: aligned.intros)

lemma aligned_snoc_insert: "aligned n xs ys \<Longrightarrow> aligned (Suc n) xs (ys @ [y])"
  by (induction rule: aligned.induct) (auto intro: aligned.intros)

lemma aligned_snoc_keep: "aligned n xs ys \<Longrightarrow> aligned n (xs @ [x]) (ys @ [x])"
  by (induction rule: aligned.induct) (auto intro: aligned.intros)

lemma aligned_snoc_substitute: "aligned n xs ys \<Longrightarrow> aligned (Suc n) (xs @ [x]) (ys @ [y])"
  by (induction rule: aligned.induct) (auto intro: aligned.intros)

lemma aligned_rev: "aligned n xs ys \<Longrightarrow> aligned n (rev xs) (rev ys)"
  by (induction rule: aligned.induct)
     (auto intro: aligned.stop aligned_snoc_delete aligned_snoc_insert aligned_snoc_keep
        aligned_snoc_substitute)

lemma edit_distance_rev_le: "edit_distance (rev xs) (rev ys) \<le> edit_distance xs ys"
  by (rule edit_distance_least) (rule aligned_rev, rule aligned_edit_distance)

lemma edit_distance_rev: "edit_distance (rev xs) (rev ys) = edit_distance xs ys"
  using edit_distance_rev_le [of xs ys] edit_distance_rev_le [of "rev xs" "rev ys"]
  by simp

lemma prefixDistance_0_left: "j \<le> length s2 \<Longrightarrow> prefixDistance s1 s2 0 j = j"
  by (simp add: prefixDistance_def)

lemma prefixDistance_0_right: "i \<le> length s1 \<Longrightarrow> prefixDistance s1 s2 i 0 = i"
  by (simp add: prefixDistance_def)

lemma prefixDistance_step:
  assumes "0 < i" "i \<le> length s1" "0 < j" "j \<le> length s2"
  shows "prefixDistance s1 s2 i j =
           min (min (prefixDistance s1 s2 (i - 1) j + 1) (prefixDistance s1 s2 i (j - 1) + 1))
               (prefixDistance s1 s2 (i - 1) (j - 1) + indicator s1 s2 i j)"
proof -
  obtain i' j' where ij: "i = Suc i'" "j = Suc j'"
    using assms(1,3) by (metis Suc_pred)
  have i': "i' < length s1" and j': "j' < length s2" using assms ij by simp_all
  have t1: "rev (take (Suc i') s1) = s1 ! i' # rev (take i' s1)"
    using i' by (simp add: take_Suc_conv_app_nth)
  have t2: "rev (take (Suc j') s2) = s2 ! j' # rev (take j' s2)"
    using j' by (simp add: take_Suc_conv_app_nth)
  show ?thesis
    unfolding ij prefixDistance_def indicator_def t1 t2 by simp
qed

lemma shaped_setCell: "shaped n1 n2 t \<Longrightarrow> shaped n1 n2 (setCell t j i v)"
  by (cases "j < length t") (auto simp: shaped_def setCell_def nth_list_update)

lemma nth_setCell:
  assumes "shaped n1 n2 t" "j \<le> n2" "i \<le> n1" "j' \<le> n2" "i' \<le> n1"
  shows "setCell t j i v ! j' ! i' = (if j' = j \<and> i' = i then v else t ! j' ! i')"
  using assms by (auto simp: shaped_def setCell_def nth_list_update)

lemma shaped_replicate: "shaped n1 n2 (replicate (n2 + 1) (replicate (n1 + 1) 0))"
  by (auto simp: shaped_def simp del: replicate_Suc)

lemma first_row:
  assumes "shaped n1 n2 t" "k \<le> n1 + 1"
  shows "shaped n1 n2 (foldl (\<lambda>track i. setCell track 0 i i) t [0..<k]) \<and>
         (\<forall>i < k. foldl (\<lambda>track i. setCell track 0 i i) t [0..<k] ! 0 ! i = i)"
  using assms(2)
proof (induction k)
  case 0
  show ?case using assms(1) by simp
next
  case (Suc k)
  let ?t = "foldl (\<lambda>track i. setCell track 0 i i) t [0..<k]"
  from Suc have sh: "shaped n1 n2 ?t" and vals: "\<forall>i < k. ?t ! 0 ! i = i" and k: "k \<le> n1"
    by simp_all
  have "setCell ?t 0 k k ! 0 ! i = i" if "i < Suc k" for i
    using that vals k nth_setCell [OF sh, of 0 k 0 i k] by (cases "i = k") auto
  then show ?case using sh by (simp add: shaped_setCell)
qed

lemma first_column:
  assumes "shaped n1 n2 t" "k \<le> n2 + 1"
  shows "shaped n1 n2 (foldl (\<lambda>track j. setCell track j 0 j) t [0..<k]) \<and>
         (\<forall>j < k. foldl (\<lambda>track j. setCell track j 0 j) t [0..<k] ! j ! 0 = j) \<and>
         (\<forall>j \<le> n2. \<forall>i \<le> n1. 0 < i \<longrightarrow>
            foldl (\<lambda>track j. setCell track j 0 j) t [0..<k] ! j ! i = t ! j ! i)"
  using assms(2)
proof (induction k)
  case 0
  show ?case using assms(1) by simp
next
  case (Suc k)
  let ?t = "foldl (\<lambda>track j. setCell track j 0 j) t [0..<k]"
  from Suc have sh: "shaped n1 n2 ?t" and vals: "\<forall>j < k. ?t ! j ! 0 = j"
    and rest: "\<forall>j \<le> n2. \<forall>i \<le> n1. 0 < i \<longrightarrow> ?t ! j ! i = t ! j ! i" and k: "k \<le> n2"
    by simp_all
  have a: "setCell ?t k 0 k ! j ! 0 = j" if "j < Suc k" for j
    using that vals k nth_setCell [OF sh, of k 0 j 0 k] by (cases "j = k") auto
  have b: "setCell ?t k 0 k ! j ! i = t ! j ! i" if "j \<le> n2" "i \<le> n1" "0 < i" for j i
    using that rest k nth_setCell [OF sh, of k 0 j i k] by auto
  show ?case using sh a b by (simp add: shaped_setCell)
qed

lemma filled_fillCell:
  assumes f: "filled s1 s2 t j i" and i: "0 < i" "i \<le> length s1" and j: "0 < j" "j \<le> length s2"
  shows "filled s1 s2 (fillCell s1 s2 j t i) j (Suc i)"
proof -
  let ?n1 = "length s1" and ?n2 = "length s2"
  have sh: "shaped ?n1 ?n2 t" using f by (simp add: filled_def)
  have cells: "t ! j' ! i' = prefixDistance s1 s2 i' j'"
    if "j' \<le> ?n2" "i' \<le> ?n1" "j' = 0 \<or> i' = 0 \<or> j' < j \<or> (j' = j \<and> i' < i)" for j' i'
    using f that unfolding filled_def by blast
  have left: "t ! j ! (i - 1) = prefixDistance s1 s2 (i - 1) j"
    using i j by (intro cells) auto
  have up: "t ! (j - 1) ! i = prefixDistance s1 s2 i (j - 1)"
    using i j by (intro cells) auto
  have diag: "t ! (j - 1) ! (i - 1) = prefixDistance s1 s2 (i - 1) (j - 1)"
    using i j by (intro cells) auto
  have new: "fillCell s1 s2 j t i ! j ! i = prefixDistance s1 s2 i j"
  proof -
    have "fillCell s1 s2 j t i ! j ! i =
            min (min (t ! j ! (i - 1) + 1) (t ! (j - 1) ! i + 1))
                (t ! (j - 1) ! (i - 1) + indicator s1 s2 i j)"
      unfolding fillCell_def using nth_setCell [OF sh j(2) i(2) j(2) i(2)] by simp
    also have "\<dots> = prefixDistance s1 s2 i j"
      unfolding left up diag by (rule prefixDistance_step [OF i j, symmetric])
    finally show ?thesis .
  qed
  have old: "fillCell s1 s2 j t i ! j' ! i' = t ! j' ! i'"
    if "j' \<le> ?n2" "i' \<le> ?n1" "\<not> (j' = j \<and> i' = i)" for j' i'
    unfolding fillCell_def using nth_setCell [OF sh j(2) i(2) that(1,2)] that(3) by simp
  have "fillCell s1 s2 j t i ! j' ! i' = prefixDistance s1 s2 i' j'"
    if "j' \<le> ?n2" "i' \<le> ?n1" "j' = 0 \<or> i' = 0 \<or> j' < j \<or> (j' = j \<and> i' < Suc i)" for j' i'
  proof (cases "j' = j \<and> i' = i")
    case True
    with new show ?thesis by simp
  next
    case False
    then have "j' = 0 \<or> i' = 0 \<or> j' < j \<or> (j' = j \<and> i' < i)" using that(3) by auto
    with old [OF that(1,2) False] cells [OF that(1,2)] show ?thesis by simp
  qed
  moreover have "shaped ?n1 ?n2 (fillCell s1 s2 j t i)"
    unfolding fillCell_def using sh by (rule shaped_setCell)
  ultimately show ?thesis by (simp add: filled_def)
qed

lemma filled_fillRow_prefix:
  assumes "filled s1 s2 t j 1" "0 < j" "j \<le> length s2" "k \<le> length s1"
  shows "filled s1 s2 (foldl (fillCell s1 s2 j) t [1..<k + 1]) j (k + 1)"
  using assms(4)
proof (induction k)
  case 0
  show ?case using assms(1) by simp
next
  case (Suc k)
  then have "filled s1 s2 (foldl (fillCell s1 s2 j) t [1..<k + 1]) j (k + 1)" by simp
  from filled_fillCell [OF this _ _ assms(2,3)] Suc.prems
  show ?case by simp
qed

lemma filled_next_row:
  assumes "filled s1 s2 t j (length s1 + 1)"
  shows "filled s1 s2 t (Suc j) 1"
proof -
  have cells: "t ! j' ! i' = prefixDistance s1 s2 i' j'"
    if "j' \<le> length s2" "i' \<le> length s1"
       "j' = 0 \<or> i' = 0 \<or> j' < j \<or> (j' = j \<and> i' < length s1 + 1)" for j' i'
    using assms that unfolding filled_def by blast
  have "t ! j' ! i' = prefixDistance s1 s2 i' j'"
    if "j' \<le> length s2" "i' \<le> length s1"
       "j' = 0 \<or> i' = 0 \<or> j' < Suc j \<or> (j' = Suc j \<and> i' < 1)" for j' i'
  proof -
    from that(2,3) have "j' = 0 \<or> i' = 0 \<or> j' < j \<or> (j' = j \<and> i' < length s1 + 1)"
      by auto
    with that(1,2) show ?thesis by (rule cells)
  qed
  moreover have "shaped (length s1) (length s2) t" using assms by (simp add: filled_def)
  ultimately show ?thesis unfolding filled_def by blast
qed

lemma filled_fillRow:
  assumes "filled s1 s2 t j 1" "0 < j" "j \<le> length s2"
  shows "filled s1 s2 (fillRow s1 s2 t j) (Suc j) 1"
  unfolding fillRow_def
  using filled_fillRow_prefix [OF assms order_refl] by (rule filled_next_row)

lemma filled_rows:
  assumes "filled s1 s2 t 1 1" "k \<le> length s2"
  shows "filled s1 s2 (foldl (fillRow s1 s2) t [1..<k + 1]) (k + 1) 1"
  using assms(2)
proof (induction k)
  case 0
  show ?case using assms(1) by simp
next
  case (Suc k)
  then have "filled s1 s2 (foldl (fillRow s1 s2) t [1..<k + 1]) (k + 1) 1" by simp
  from filled_fillRow [OF this] Suc.prems show ?case by simp
qed

lemma levenshteinDistance_prefix:
  "levenshteinDistance s1 s2 = prefixDistance s1 s2 (length s1) (length s2)"
proof -
  let ?n1 = "length s1" and ?n2 = "length s2"
  define t0 where "t0 = replicate (?n2 + 1) (replicate (?n1 + 1) (0::nat))"
  define t1 where "t1 = foldl (\<lambda>track i. setCell track 0 i i) t0 [0..<?n1 + 1]"
  define t2 where "t2 = foldl (\<lambda>track j. setCell track j 0 j) t1 [0..<?n2 + 1]"
  define t3 where "t3 = foldl (fillRow s1 s2) t2 [1..<?n2 + 1]"
  have s0: "shaped ?n1 ?n2 t0" unfolding t0_def by (rule shaped_replicate)
  have r1: "shaped ?n1 ?n2 t1" "\<forall>i < ?n1 + 1. t1 ! 0 ! i = i"
    using first_row [OF s0 order_refl] by (simp_all add: t1_def)
  have r2: "shaped ?n1 ?n2 t2" "\<forall>j < ?n2 + 1. t2 ! j ! 0 = j"
    "\<forall>j \<le> ?n2. \<forall>i \<le> ?n1. 0 < i \<longrightarrow> t2 ! j ! i = t1 ! j ! i"
    using first_column [OF r1(1) order_refl] by (simp_all add: t2_def)
  have "t2 ! j' ! i' = prefixDistance s1 s2 i' j'"
    if "j' \<le> ?n2" "i' \<le> ?n1" "j' = 0 \<or> i' = 0" for j' i'
  proof (cases "i' = 0")
    case True
    with r2(2) that show ?thesis by (simp add: prefixDistance_0_left)
  next
    case False
    with that have "j' = 0" "0 < i'" by simp_all
    with r2(3) r1(2) that show ?thesis by (simp add: prefixDistance_0_right)
  qed
  with r2(1) have "filled s1 s2 t2 1 1" by (auto simp: filled_def)
  from filled_rows [OF this order_refl] have "filled s1 s2 t3 (?n2 + 1) 1"
    by (simp add: t3_def)
  then have "t3 ! ?n2 ! ?n1 = prefixDistance s1 s2 ?n1 ?n2"
    by (simp add: filled_def)
  then show ?thesis
    by (simp add: levenshteinDistance_def Let_def t0_def t1_def t2_def t3_def)
qed

lemma levenshteinDistance_edit_distance:
  "levenshteinDistance s1 s2 = edit_distance s1 s2"
  by (simp add: levenshteinDistance_prefix prefixDistance_def edit_distance_rev)

lemma aligned_sym: "aligned n xs ys \<Longrightarrow> aligned n ys xs"
  by (induction rule: aligned.induct) (auto intro: aligned.intros)

lemma edit_distance_sym: "edit_distance xs ys = edit_distance ys xs"
proof -
  have "edit_distance ys xs \<le> edit_distance xs ys" for xs ys :: "'a list"
    by (rule edit_distance_least) (rule aligned_sym, rule aligned_edit_distance)
  from this [of xs ys] this [of ys xs] show ?thesis by simp
qed

lemma aligned_refl: "aligned 0 xs xs"
  by (induction xs) (auto intro: aligned.intros)

lemma edit_distance_refl: "edit_distance xs xs = 0"
  using edit_distance_least [OF aligned_refl, of xs] by simp

lemma stringSimilarity_edit_distance:
  assumes "str1 \<noteq> []" "str2 \<noteq> []"
  shows "stringSimilarity str1 str2 =
           (let s1 = trim (toLowerCase str1);
                s2 = trim (toLowerCase str2);
                longest = max (length s1) (length s2)
            in if longest = 0 then 1
               else (real longest - real (edit_distance s1 s2)) / real longest)"
proof -
  let ?s1 = "trim (toLowerCase str1)" and ?s2 = "trim (toLowerCase str2)"
  show ?thesis
  proof (cases "?s1 = ?s2")
    case True
    then show ?thesis using assms
      by (simp add: stringSimilarity_def Let_def edit_distance_refl)
  next
    case False
    then have "max (length ?s1) (length ?s2) \<noteq> 0" by auto
    with False assms show ?thesis
      by (auto simp: stringSimilarity_def Let_def levenshteinDistance_edit_distance
            edit_distance_sym [of ?s2 ?s1] max_def)
  qed
qed

text \<open>
  C5. stringSimilarity is the Levenshtein edit distance normalised by the length of the
  longer string: for non-empty arguments it returns (longest - distance) / longest of the
  lower-cased, trimmed strings; stringSimilarity s s = 1.0 for every non-empty s; the
  result is 0.0 when either argument is empty; and kitten against sitting has distance 3
  and similarity (7 - 3) / 7.
\<close>

theorem stringSimilarity_levenshtein:
  "(s \<noteq> [] \<longrightarrow> stringSimilarity s s = 1.0)
   \<and> (a = [] \<or> b = [] \<longrightarrow> stringSimilarity a b = 0.0)
   \<and> (a \<noteq> [] \<and> b \<noteq> [] \<longrightarrow>
        stringSimilarity a b =
          (let s1 = trim (toLowerCase a);
               s2 = trim (toLowerCase b);
               longest = max (length s1) (length s2)
           in if longest = 0 then 1
              else (real longest - real (edit_distance s1 s2)) / real longest))
   \<and> edit_distance ''kitten'' ''sitting'' = 3
   \<and> stringSimilarity ''kitten'' ''sitting'' = (7 - 3) / 7"
proof -
  have same: "s \<noteq> [] \<longrightarrow> stringSimilarity s s = 1.0"
    by (simp add: stringSimilarity_def)
  have empty: "a = [] \<or> b = [] \<longrightarrow> stringSimilarity a b = 0.0"
    by (auto simp: stringSimilarity_def)
  have general: "a \<noteq> [] \<and> b \<noteq> [] \<longrightarrow>
        stringSimilarity a b =
          (let s1 = trim (toLowerCase a);
               s2 = trim (toLowerCase b);
               longest = max (length s1) (length s2)
           in if longest = 0 then 1
              else (real longest - real (edit_distance s1 s2)) / real longest)"
    using stringSimilarity_edit_distance [of a b] by blast
  have dist: "edit_distance ''kitten'' ''sitting'' = 3"
    by code_simp
  have norm: "trim (toLowerCase ''kitten'') = ''kitten''"
             "trim (toLowerCase ''sitting'') = ''sitting''"
    by (simp_all add: trim_def toLowerCase_def toLowerCaseChar_def isWhiteSpace_def)
  have kitten: "stringSimilarity ''kitten'' ''sitting'' = (7 - 3) / 7"
    using stringSimilarity_edit_distance [of "''kitten''" "''sitting''"]
    by (simp add: norm dist Let_def)
  from same empty general dist kitten show ?thesis by blast
qed

theorem stringSimilarity_levenshtein_witness:
  "stringSimilarity ''clawdbot'' ''clawdbot'' = 1.0
   \<and> stringSimilarity ''a'' [] = 0.0
   \<and> stringSimilarity ''Nova'' ''nova_1'' = (6 - 2) / 6"
proof -
  have norm: "trim (toLowerCase ''Nova'') = ''nova''"
             "trim (toLowerCase ''nova_1'') = ''nova_1''"
    by code_simp+
  have dist: "edit_distance ''nova'' ''nova_1'' = 2"
    by code_simp
  from stringSimilarity_levenshtein [of "''clawdbot''" "''a''" "[]"]
       stringSimilarity_levenshtein [of "''x''" "''Nova''" "''nova_1''"]
  show ?thesis by (simp add: norm dist Let_def)
qed

section \<open>Properties of the identity resolver\<close>

lemma recursiveStep_base: "recursiveStep links (baseClusters agents links) = []"
  by (auto simp: recursiveStep_def baseClusters_def followLinks_def hasLink_def list_ex_iff
        filter_empty_conv)

lemma agentClusters_base: "agentClusters agents links = baseClusters agents links"
  unfolding agentClusters_def
  by (subst agentClustersFrom.simps) (simp add: recursiveStep_base)

lemma canonicalAgents_base: "canonicalAgents (baseClusters agents links) = []"
proof -
  have "length (remdups (map cluster_id (filter (\<lambda>r. groupKey r = k) (baseClusters agents links)))) \<le> 1"
    for k
  proof -
    have "set (map cluster_id (filter (\<lambda>r. groupKey r = k) (baseClusters agents links))) \<subseteq> {k}"
      by (auto simp: baseClusters_def groupKey_def)
    then have "card (set (map cluster_id (filter (\<lambda>r. groupKey r = k) (baseClusters agents links)))) \<le> 1"
      by (metis card_mono finite.emptyI finite.insertI card.empty card.insert empty_iff One_nat_def)
    then show ?thesis by (simp add: length_remdups_card_conv)
  qed
  then show ?thesis
    by (auto simp: canonicalAgents_def canonicalAgent_def filter_empty_conv not_less)
qed

text \<open>
  C4. After createUnifiedProfiles every agent should belong to exactly one profile, linked
  agents sharing one whose canonical id is the least id of the component. The code writes
  no profile at all, whatever the agents and the links: the base case of its recursive
  query selects only the agents without any link, so the recursive case finds no link to
  follow, every cluster has a single member, and HAVING COUNT(DISTINCT cluster\_id) > 1
  discards every group.
\<close>

theorem createUnifiedProfiles_writes_nothing:
  "createUnifiedProfiles agents links profiles = Some profiles"
  by (simp add: createUnifiedProfiles_def agentClusters_base canonicalAgents_base)

theorem createUnifiedProfiles_writes_nothing_witness:
  "createUnifiedProfiles [1, 2, 3] chain_links [] = Some []"
  using createUnifiedProfiles_writes_nothing [of "[1, 2, 3]" chain_links "[]"] .












text \<open>
  The ON CONFLICT clauses, were an INSERT to meet a link of its own pair: that of
  linkExactMatches keeps the larger confidence, that of linkFuzzyMatches stores the new
  similarity.
\<close>

lemma conflict_clauses:
  "map confidence (insertExactMatch [l] (primary_agent_id l) (linked_agent_id l))
     = [max 0.95 (confidence l)]"
  "map confidence (insertFuzzyMatch [l] (primary_agent_id l) (linked_agent_id l) s) = [s]"
  by (simp_all add: insertExactMatch_def insertFuzzyMatch_def sameLinkKey_def Let_def)



text \<open>
  C9. Sock-puppet detection should flag clusters of at least 3 linked agents created within
  a tight window as a sock\_puppet\_network alert, medium for 3 to 4 accounts. The
  statement of detectSockPuppets groups by an expression that holds an aggregate and a
  window function, which PostgreSQL rejects: on every database, the four agents created
  within an hour among them, detectSockPuppets throws and writes no alert.
\<close>

theorem detectSockPuppets_rejected:
  "detectSockPuppets execute db = Inl NotAllowedInGroupBy"
  by (simp add: detectSockPuppets_def analyseGroupBy_def networkClustersGroupBy_def)

theorem detectSockPuppets_rejected_witness:
  "detectSockPuppets (\<lambda>db. db_alerts db) puppet_database = Inl NotAllowedInGroupBy"
  using detectSockPuppets_rejected [of "\<lambda>db. db_alerts db" puppet_database] .


section \<open>Properties of the threat correlator\<close>

lemma correlation_map_prefix:
  fixes threats :: "threat list"
  defines "m n \<equiv> foldl (\<lambda>m i. mapPush (threatKey (threats ! i)) i m) [] [0..<n]"
  shows "distinct (map fst (m n)) \<and>
         (\<forall>k. map_of (m n) k = (if groupOf threats n k = [] then None
                                else Some (groupOf threats n k)))"
proof (induction n)
  case 0
  show ?case by (simp add: m_def groupOf_def)
next
  case (Suc n)
  have step: "m (Suc n) = mapPush (threatKey (threats ! n)) n (m n)"
    by (simp add: m_def)
  have d: "distinct (map fst (m (Suc n)))"
    using Suc by (simp add: step fst_mapPush)
  have g: "groupOf threats (Suc n) k =
             (if threatKey (threats ! n) = k then groupOf threats n k @ [n]
              else groupOf threats n k)" for k
    by (simp add: groupOf_def)
  have "map_of (m (Suc n)) k = (if groupOf threats (Suc n) k = [] then None
                                 else Some (groupOf threats (Suc n) k))" for k
    using Suc by (simp add: step map_of_mapPush g)
  with d show ?case by blast
qed

lemma buildCorrelationMap_groups:
  "distinct (map fst (buildCorrelationMap threats))"
  "map_of (buildCorrelationMap threats) k =
     (if groupOf threats (length threats) k = [] then None
      else Some (groupOf threats (length threats) k))"
  using correlation_map_prefix [of threats "length threats"]
  by (simp_all add: buildCorrelationMap_def)

lemma length_foldl_update:
  "length (foldl (\<lambda>st i. st[i := f (st ! i)]) st g) = length st"
  by (induction g arbitrary: st) simp_all

lemma nth_foldl_update:
  assumes "distinct g" "j < length st"
  shows "foldl (\<lambda>st i. st[i := f (st ! i)]) st g ! j = (if j \<in> set g then f (st ! j) else st ! j)"
  using assms
proof (induction g arbitrary: st)
  case Nil
  then show ?case by simp
next
  case (Cons i g)
  then show ?case by (cases "i = j") (auto simp: nth_list_update)
qed

lemma length_boostGroup: "length (boostGroup st g) = length st"
  by (simp add: boostGroup_def Let_def length_foldl_update)

lemma nth_boostGroup:
  assumes "distinct g" "j < length st"
  shows "boostGroup st g ! j =
           (if j \<in> set g \<and> 1 < length g
            then boostThreat (1 + (real (length g) - 1) * 0.2) (st ! j) else st ! j)"
  using assms by (simp add: boostGroup_def Let_def nth_foldl_update)

lemma length_foldl_boostGroup: "length (foldl boostGroup st gs) = length st"
  by (induction gs arbitrary: st) (simp_all add: length_boostGroup)

lemma nth_foldl_boostGroup:
  assumes "distinct (map fst m)"
      and "\<forall>(k, g) \<in> set m. g = groupOf threats (length st) k"
      and "j < length st"
  shows "foldl boostGroup st (map snd m) ! j =
           (if threatKey (threats ! j) \<in> fst ` set m
               \<and> 1 < length (groupOf threats (length st) (threatKey (threats ! j)))
            then boostThreat
                   (1 + (real (length (groupOf threats (length st) (threatKey (threats ! j)))) - 1) * 0.2)
                   (st ! j)
            else st ! j)"
  using assms
proof (induction m arbitrary: st)
  case Nil
  then show ?case by simp
next
  case (Cons kg m)
  obtain k g where kg: "kg = (k, g)" by (cases kg)
  let ?st = "boostGroup st g"
  have g: "g = groupOf threats (length st) k" using Cons.prems(2) by (simp add: kg)
  have dg: "distinct g" by (simp add: g groupOf_def)
  have mem: "j \<in> set g \<longleftrightarrow> threatKey (threats ! j) = k"
    using Cons.prems(3) by (auto simp: g groupOf_def)
  have len: "length ?st = length st" by (rule length_boostGroup)
  have IH: "foldl boostGroup ?st (map snd m) ! j =
           (if threatKey (threats ! j) \<in> fst ` set m
               \<and> 1 < length (groupOf threats (length st) (threatKey (threats ! j)))
            then boostThreat
                   (1 + (real (length (groupOf threats (length st) (threatKey (threats ! j)))) - 1) * 0.2)
                   (?st ! j)
            else ?st ! j)"
    using Cons.IH [of ?st] Cons.prems by (simp add: len)
  have notin: "k \<notin> fst ` set m" using Cons.prems(1) by (simp add: kg)
  show ?case
  proof (cases "threatKey (threats ! j) = k")
    case True
    then show ?thesis
      using IH notin nth_boostGroup [OF dg Cons.prems(3)] mem
      by (simp add: kg g)
  next
    case False
    then show ?thesis
      using IH nth_boostGroup [OF dg Cons.prems(3)] mem
      by (simp add: kg)
  qed
qed

lemma length_groupOf: "length (groupOf threats (length threats) k) = signalCount threats k"
proof -
  have "filter (\<lambda>t. threatKey t = k) (map (nth threats) [0..<length threats])
        = map (nth threats) (groupOf threats (length threats) k)"
    by (simp add: filter_map comp_def groupOf_def)
  then show ?thesis by (simp add: signalCount_def map_nth)
qed

lemma length_boostAll: "length (boostAll threats) = length threats"
  by (simp add: boostAll_def length_foldl_boostGroup)

lemma nth_boostAll:
  assumes "j < length threats"
  shows "boostAll threats ! j =
           (if 1 < signalCount threats (threatKey (threats ! j))
            then boostThreat (1 + (real (signalCount threats (threatKey (threats ! j))) - 1) * 0.2)
                   (threats ! j)
            else threats ! j)"
proof -
  let ?m = "buildCorrelationMap threats"
  have grp: "\<forall>(k, g) \<in> set ?m. g = groupOf threats (length threats) k"
  proof clarify
    fix k g assume "(k, g) \<in> set ?m"
    then have "map_of ?m k = Some g"
      using buildCorrelationMap_groups(1) by simp
    then show "g = groupOf threats (length threats) k"
      by (simp add: buildCorrelationMap_groups(2) split: if_splits)
  qed
  have "j \<in> set (groupOf threats (length threats) (threatKey (threats ! j)))"
    using assms by (simp add: groupOf_def)
  then have "map_of ?m (threatKey (threats ! j)) \<noteq> None"
    by (auto simp: buildCorrelationMap_groups(2))
  then have key: "threatKey (threats ! j) \<in> fst ` set ?m"
    by (metis map_of_eq_None_iff)
  show ?thesis
    unfolding boostAll_def
    using nth_foldl_boostGroup [OF buildCorrelationMap_groups(1) grp assms] key
    by (simp add: length_groupOf)
qed

lemma boostAll_map:
  "boostAll threats =
     map (\<lambda>t. if 1 < signalCount threats (threatKey t)
              then boostThreat (1 + (real (signalCount threats (threatKey t)) - 1) * 0.2) t
              else t) threats"
  by (rule nth_equalityI) (simp_all add: length_boostAll nth_boostAll)

lemma mset_correlateThreats:
  "mset (correlateThreats threats) = mset (boostAll threats)"
  by (simp add: correlateThreats_def)

lemmas correlate_eval =
  correlateThreats_def boostAll_def buildCorrelationMap_def boostGroup_def boostThreat_def
  threatKey_def truthyNum_def truthyStr_def unusualUpdateThreat_def rapidCreationThreat_def
  credentialHarvestingThreat_def analyzeAgentBehavior_def rapidCreators_def
  credentialHarvesters_def Let_def upt_rec

text \<open>
  C2. correlateThreats groups the signals by their key. The result holds, for every
  input signal whose key is carried by more than one signal, that signal with its risk
  multiplied by 1 + 0.2 * (signalCount - 1), capped at 1.0, and the boost recorded on it;
  every signal whose key no other signal carries is in the result as it was, its risk
  unchanged. Three signals on one agent, each of base risk 0.5, end with risk 0.7 each.
\<close>

theorem correlateThreats_boost:
  "mset (correlateThreats threats) =
     {# if 1 < signalCount threats (threatKey t)
        then t\<lparr> risk_score :=
                  min (risk_score t * (1 + 0.2 * (real (signalCount threats (threatKey t)) - 1))) 1.0,
                correlation_boost :=
                  Some (1 + 0.2 * (real (signalCount threats (threatKey t)) - 1)) \<rparr>
        else t. t \<in># mset threats #}
   \<and> map risk_score three_signals = [0.5, 0.5, 0.5]
   \<and> map risk_score (correlateThreats three_signals) = [0.7, 0.7, 0.7]
   \<and> map correlation_boost (correlateThreats three_signals) = [Some 1.4, Some 1.4, Some 1.4]"
proof -
  have "boostAll threats =
     map (\<lambda>t. if 1 < signalCount threats (threatKey t)
        then t\<lparr> risk_score :=
                  min (risk_score t * (1 + 0.2 * (real (signalCount threats (threatKey t)) - 1))) 1.0,
                correlation_boost :=
                  Some (1 + 0.2 * (real (signalCount threats (threatKey t)) - 1)) \<rparr>
        else t) threats"
    by (simp add: boostAll_map boostThreat_def mult.commute)
  then have general: "mset (correlateThreats threats) =
     {# if 1 < signalCount threats (threatKey t)
        then t\<lparr> risk_score :=
                  min (risk_score t * (1 + 0.2 * (real (signalCount threats (threatKey t)) - 1))) 1.0,
                correlation_boost :=
                  Some (1 + 0.2 * (real (signalCount threats (threatKey t)) - 1)) \<rparr>
        else t. t \<in># mset threats #}"
    by (simp only: mset_correlateThreats mset_map)
  have base: "map risk_score three_signals = [0.5, 0.5, 0.5]"
    by (simp add: three_signals_def unusualUpdateThreat_def)
  have risks: "map risk_score (correlateThreats three_signals) = [0.7, 0.7, 0.7]"
    by (simp add: three_signals_def correlate_eval)
  have boosts: "map correlation_boost (correlateThreats three_signals)
                  = [Some 1.4, Some 1.4, Some 1.4]"
    by (simp add: three_signals_def correlate_eval)
  from general base risks boosts show ?thesis by blast
qed

theorem correlateThreats_boost_witness:
  "image_mset (\<lambda>t. (threatKey t, risk_score t, correlation_boost t))
     (mset (correlateThreats mixed_signals))
   = {# (KeyStr ''nova'', 0.6, Some 1.2), (KeyNum 4, 0.9, None),
        (KeyStr ''nova'', 0.6, Some 1.2) #}"
proof -
  let ?u = "unusualUpdateThreat ''nova''" and ?r = "rapidCreationThreat (4, 6)"
  have keys: "threatKey ?u = KeyStr ''nova''" "threatKey ?r = KeyNum 4"
    by (simp_all add: threatKey_def truthyNum_def truthyStr_def unusualUpdateThreat_def
          rapidCreationThreat_def)
  have count: "signalCount mixed_signals (KeyStr ''nova'') = 2"
              "signalCount mixed_signals (KeyNum 4) = 1"
    by (simp_all add: signalCount_def mixed_signals_def keys)
  have ms: "mset mixed_signals = {# ?u, ?r, ?u #}"
    by (simp add: mixed_signals_def)
  have "mset (correlateThreats mixed_signals) =
     {# if 1 < signalCount mixed_signals (threatKey t)
        then t\<lparr> risk_score :=
                  min (risk_score t * (1 + 0.2 * (real (signalCount mixed_signals (threatKey t)) - 1))) 1.0,
                correlation_boost :=
                  Some (1 + 0.2 * (real (signalCount mixed_signals (threatKey t)) - 1)) \<rparr>
        else t. t \<in># mset mixed_signals #}"
    using correlateThreats_boost [of mixed_signals] by (rule conjunct1)
  then have "mset (correlateThreats mixed_signals) =
     {# ?u\<lparr> risk_score := min (risk_score ?u * 1.2) 1, correlation_boost := Some 1.2 \<rparr>,
        ?r,
        ?u\<lparr> risk_score := min (risk_score ?u * 1.2) 1, correlation_boost := Some 1.2 \<rparr> #}"
    unfolding ms by (simp add: keys count)
  then show ?thesis
    by (simp add: threatKey_def truthyNum_def truthyStr_def unusualUpdateThreat_def
          rapidCreationThreat_def)
qed
















text \<open>
  Were skills to have the column agent\_id, the credential-harvesting signal of an author
  with 5 findings would carry the risk 1.05, the formula having no cap.
\<close>

lemma credentialHarvesting_with_agent_id:
  "map risk_score (analyzeAgentBehavior schemaWithAgentId [] [(''mallory'', 5)]) = [1.05]"
  by (simp add: analyzeAgentBehavior_def query_def hasColumn_def schemaWithAgentId_def
        installedSchema_def rapidCreatorsColumns_def credentialHarvestersColumns_def
        rapidCreators_def credentialHarvesters_def credentialHarvestingThreat_def)


section \<open>Properties of the community detection\<close>

lemma adjGet_adjPush:
  "adjGet (adjPush k x m) a = (if a = k then adjGet m k @ [x] else adjGet m a)"
  by (simp add: adjPush_def adjGet_def map_of_mapSet)

lemma adjGet_addAdjEdge:
  assumes "(b, w) \<in> set (adjGet (addAdjEdge m e) a)"
  shows "(b, w) \<in> set (adjGet m a) \<or>
         (w = weight e \<and> ((source e = a \<and> target e = b) \<or> (source e = b \<and> target e = a)))"
  using assms by (auto simp: addAdjEdge_def adjGet_adjPush split: if_splits)

lemma adjGet_foldl_addAdjEdge:
  assumes "(b, w) \<in> set (adjGet (foldl addAdjEdge m es) a)"
  shows "(b, w) \<in> set (adjGet m a) \<or>
         (\<exists>e \<in> set es. w = weight e \<and>
            ((source e = a \<and> target e = b) \<or> (source e = b \<and> target e = a)))"
  using assms
proof (induction es arbitrary: m)
  case Nil
  then show ?case by simp
next
  case (Cons e es)
  from Cons.IH [of "addAdjEdge m e"] Cons.prems
  have "(b, w) \<in> set (adjGet (addAdjEdge m e) a) \<or>
         (\<exists>e \<in> set es. w = weight e \<and>
            ((source e = a \<and> target e = b) \<or> (source e = b \<and> target e = a)))"
    by simp
  then show ?case
  proof
    assume "(b, w) \<in> set (adjGet (addAdjEdge m e) a)"
    from adjGet_addAdjEdge [OF this] show ?thesis by auto
  next
    assume "\<exists>e \<in> set es. w = weight e \<and>
            ((source e = a \<and> target e = b) \<or> (source e = b \<and> target e = a))"
    then show ?thesis by auto
  qed
qed

lemma adjGet_initial: "adjGet (foldl (\<lambda>m n. mapSet (node_id n) [] m) m0 ns) a =
                         (if a \<in> node_id ` set ns then [] else adjGet m0 a)"
  by (induction ns arbitrary: m0) (auto simp: adjGet_def map_of_mapSet)

lemma strongAdj_buildAdjList: "strongAdj (buildAdjList ns es) 0.3 \<subseteq> strongLink es"
proof
  fix p assume p: "p \<in> strongAdj (buildAdjList ns es) 0.3"
  obtain a b where ab: "p = (a, b)" by (cases p)
  from p obtain w where w: "(b, w) \<in> set (adjGet (buildAdjList ns es) a)" "w > 0.3"
    by (auto simp: strongAdj_def ab)
  let ?m0 = "foldl (\<lambda>m n. mapSet (node_id n) [] m) [] ns"
  have empty: "adjGet ?m0 a = []"
    by (simp add: adjGet_initial) (simp add: adjGet_def)
  from w(1) have "(b, w) \<in> set (adjGet (foldl addAdjEdge ?m0 es) a)"
    by (simp add: buildAdjList_def)
  from adjGet_foldl_addAdjEdge [OF this]
  have "\<exists>e \<in> set es. w = weight e \<and>
            ((source e = a \<and> target e = b) \<or> (source e = b \<and> target e = a))"
    by (simp add: empty)
  with w(2) show "p \<in> strongLink es" by (auto simp: strongLink_def ab)
qed

lemma sym_strongLink: "sym (strongLink es)"
  by (auto simp: sym_def strongLink_def)

lemma nodes_scan:
  "c_nodes (snd (foldl (scanNeighbor visited threshold) qc neighbors)) = c_nodes (snd qc)"
  by (induction neighbors arbitrary: qc) (simp_all add: scanNeighbor_def)

lemma queue_scan:
  assumes "x \<in> set (fst (foldl (scanNeighbor visited threshold) qc neighbors))"
  shows "x \<in> set (fst qc) \<or> (\<exists>w. (x, w) \<in> set neighbors \<and> w > threshold)"
  using assms
proof (induction neighbors arbitrary: qc)
  case Nil
  then show ?case by simp
next
  case (Cons n ns)
  from Cons.IH [of "scanNeighbor visited threshold qc n"] Cons.prems
  have "x \<in> set (fst (scanNeighbor visited threshold qc n))
        \<or> (\<exists>w. (x, w) \<in> set ns \<and> w > threshold)" by simp
  then show ?case
    by (cases n) (auto simp: scanNeighbor_def split: if_splits)
qed

lemma exploreLoop_reachable:
  assumes "\<forall>x \<in> set queue \<union> set (c_nodes community). (s, x) \<in> (strongAdj adj threshold)\<^sup>*"
  shows "\<forall>x \<in> set (c_nodes (snd (exploreLoop adj threshold queue visited community))).
           (s, x) \<in> (strongAdj adj threshold)\<^sup>*"
  using assms
proof (induction adj threshold queue visited community rule: exploreLoop.induct)
  case (1 adj threshold visited community)
  then show ?case by simp
next
  case (2 adj threshold nodeId queue visited community)
  show ?case
  proof (cases "nodeId \<in> visited")
    case True
    with 2 show ?thesis by simp
  next
    case False
    define visited' where "visited' = insert nodeId visited"
    define community' where "community' = community\<lparr> c_nodes := c_nodes community @ [nodeId] \<rparr>"
    define qc where
      "qc = foldl (scanNeighbor visited' threshold) (queue, community') (adjGet adj nodeId)"
    have start: "(s, nodeId) \<in> (strongAdj adj threshold)\<^sup>*" using "2.prems" by simp
    have "(s, x) \<in> (strongAdj adj threshold)\<^sup>*" if "x \<in> set (fst qc) \<union> set (c_nodes (snd qc))" for x
    proof -
      from that have "x \<in> set (fst qc) \<or> x \<in> set (c_nodes community')"
        by (simp add: qc_def nodes_scan)
      then show ?thesis
      proof
        assume "x \<in> set (fst qc)"
        from queue_scan [OF this [unfolded qc_def]]
        have "x \<in> set queue \<or> (\<exists>w. (x, w) \<in> set (adjGet adj nodeId) \<and> w > threshold)"
          by simp
        then show ?thesis
        proof
          assume "x \<in> set queue" with "2.prems" show ?thesis by simp
        next
          assume "\<exists>w. (x, w) \<in> set (adjGet adj nodeId) \<and> w > threshold"
          then have "(nodeId, x) \<in> strongAdj adj threshold" by (simp add: strongAdj_def)
          with start show ?thesis by (rule rtrancl_into_rtrancl)
        qed
      next
        assume "x \<in> set (c_nodes community')"
        with "2.prems" show ?thesis by (auto simp: community'_def)
      qed
    qed
    then have "\<forall>x \<in> set (fst qc) \<union> set (c_nodes (snd qc)). (s, x) \<in> (strongAdj adj threshold)\<^sup>*"
      by blast
    from "2.IH"(2) [OF False visited'_def community'_def qc_def this] False
    show ?thesis by (simp add: Let_def visited'_def community'_def qc_def)
  qed
qed

lemma exploreWeightedCommunity_reachable:
  "x \<in> set (c_nodes (snd (exploreWeightedCommunity s adj visited)))
     \<Longrightarrow> (s, x) \<in> (strongAdj adj 0.3)\<^sup>*"
  using exploreLoop_reachable [of "[s]" "\<lparr> c_nodes = [], c_total_weight = 0, c_edges = 0 \<rparr>" s adj "0.3" visited]
  by (simp add: exploreWeightedCommunity_def)

lemma communityOk_makeCommunity:
  assumes "1 < length (c_nodes (snd (exploreWeightedCommunity s (buildAdjList ns es) visited)))"
  shows "communityOk es (makeCommunity (snd (exploreWeightedCommunity s (buildAdjList ns es) visited)) es)"
proof -
  let ?c = "snd (exploreWeightedCommunity s (buildAdjList ns es) visited)"
  have reach: "(s, x) \<in> (strongLink es)\<^sup>*" if "x \<in> set (c_nodes ?c)" for x
    using exploreWeightedCommunity_reachable [OF that]
          rtrancl_mono [OF strongAdj_buildAdjList [of ns es]] by blast
  have "(a, b) \<in> (strongLink es)\<^sup>*" if "a \<in> set (c_nodes ?c)" "b \<in> set (c_nodes ?c)" for a b
  proof -
    have "(a, s) \<in> (strongLink es)\<^sup>*"
      using reach [OF that(1)] sym_rtrancl [OF sym_strongLink [of es]] by (auto dest: symD)
    with reach [OF that(2)] show ?thesis by (rule rtrancl_trans [rotated])
  qed
  with assms show ?thesis
    by (simp add: communityOk_def makeCommunity_def Let_def sortNodeIds_def)
qed

lemma detectLoop_ok:
  assumes "\<forall>c \<in> set communities. communityOk es c"
  shows "\<forall>c \<in> set (detectLoop todo (buildAdjList ns es) es visited communities). communityOk es c"
  using assms
proof (induction todo arbitrary: visited communities)
  case Nil
  then show ?case by simp
next
  case (Cons n todo)
  show ?case
  proof (cases "node_id n \<in> visited")
    case True
    with Cons show ?thesis by simp
  next
    case False
    let ?vc = "exploreWeightedCommunity (node_id n) (buildAdjList ns es) visited"
    show ?thesis
    proof (cases "1 < length (c_nodes (snd ?vc))")
      case True
      from communityOk_makeCommunity [OF this] Cons.prems
      have "\<forall>c \<in> set (communities @ [makeCommunity (snd ?vc) es]). communityOk es c" by simp
      from Cons.IH [OF this] True False show ?thesis by (simp add: Let_def)
    next
      case False
      with Cons \<open>node_id n \<notin> visited\<close> show ?thesis by (simp add: Let_def)
    qed
  qed
qed

lemma detectCommunityStructures_ok:
  "c \<in> set (detectCommunityStructures ns es) \<Longrightarrow> communityOk es c"
  using detectLoop_ok [of "[]" es ns ns "{}"] by (simp add: detectCommunityStructures_def)

lemma visited_scan:
  "fst (foldl (scanNeighbor visited threshold) qc neighbors) =
     fst qc @ map fst (filter (\<lambda>n. fst n \<notin> visited \<and> snd n > threshold) neighbors)"
  by (induction neighbors arbitrary: qc) (simp_all add: scanNeighbor_def)

lemma insert_diff_step:
  "x \<in> R \<Longrightarrow> x \<notin> V \<Longrightarrow> insert x C \<union> (R - insert x V) = C \<union> (R - V)"
  by blast

text \<open>What one run of the queue loop leaves behind.\<close>

lemma exploreLoop_visited:
  "visited \<union> set queue \<subseteq> fst (exploreLoop adj threshold queue visited community)
   \<and> set (c_nodes (snd (exploreLoop adj threshold queue visited community)))
       = set (c_nodes community) \<union> (fst (exploreLoop adj threshold queue visited community) - visited)
   \<and> (\<forall>a \<in> fst (exploreLoop adj threshold queue visited community) - visited.
        \<forall>b. (a, b) \<in> strongAdj adj threshold \<longrightarrow>
            b \<in> fst (exploreLoop adj threshold queue visited community))"
proof (induction adj threshold queue visited community rule: exploreLoop.induct)
  case (1 adj threshold visited community)
  show ?case by simp
next
  case (2 adj threshold nodeId queue visited community)
  show ?case
  proof (cases "nodeId \<in> visited")
    case True
    let ?r = "exploreLoop adj threshold queue visited community"
    have res: "exploreLoop adj threshold (nodeId # queue) visited community = ?r"
      using True by simp
    note IH = "2.IH"(1) [OF True]
    from IH have "visited \<union> set queue \<subseteq> fst ?r" by (rule conjunct1)
    with True have "visited \<union> set (nodeId # queue) \<subseteq> fst ?r" by auto
    from this conjunct2 [OF IH] show ?thesis unfolding res by (rule conjI)
  next
    case False
    define visited' where "visited' = insert nodeId visited"
    define community' where "community' = community\<lparr> c_nodes := c_nodes community @ [nodeId] \<rparr>"
    define qc where
      "qc = foldl (scanNeighbor visited' threshold) (queue, community') (adjGet adj nodeId)"
    let ?r = "exploreLoop adj threshold (fst qc) visited' (snd qc)"
    have res: "exploreLoop adj threshold (nodeId # queue) visited community = ?r"
      using False by (simp add: Let_def visited'_def community'_def qc_def)
    note IH = "2.IH"(2) [OF False visited'_def community'_def qc_def]
    have q: "fst qc = queue @ map fst (filter (\<lambda>n. fst n \<notin> visited' \<and> snd n > threshold) (adjGet adj nodeId))"
      by (simp add: qc_def visited_scan)
    have n: "c_nodes (snd qc) = c_nodes community'"
      by (simp add: qc_def nodes_scan)
    have sub: "visited' \<union> set (fst qc) \<subseteq> fst ?r"
      using IH by (rule conjunct1)
    have new: "set (c_nodes (snd ?r)) = set (c_nodes (snd qc)) \<union> (fst ?r - visited')"
      using conjunct2 [OF IH] by (rule conjunct1)
    have closed: "\<forall>a \<in> fst ?r - visited'. \<forall>b. (a, b) \<in> strongAdj adj threshold \<longrightarrow> b \<in> fst ?r"
      using conjunct2 [OF IH] by (rule conjunct2)
    have a1: "visited \<union> set (nodeId # queue) \<subseteq> fst ?r"
      using sub by (simp add: visited'_def q)
    have a2: "set (c_nodes (snd ?r)) = set (c_nodes community) \<union> (fst ?r - visited)"
    proof -
      have inr: "nodeId \<in> fst ?r" using sub by (simp add: visited'_def)
      have e1: "set (c_nodes (snd qc)) = insert nodeId (set (c_nodes community))"
        by (simp add: n community'_def)
      have "set (c_nodes (snd ?r)) =
              insert nodeId (set (c_nodes community)) \<union> (fst ?r - insert nodeId visited)"
        using new unfolding e1 visited'_def .
      also have "\<dots> = set (c_nodes community) \<union> (fst ?r - visited)"
        by (rule insert_diff_step [OF inr False])
      finally show ?thesis .
    qed
    have a4: "b \<in> fst ?r" if a: "a \<in> fst ?r - visited" and ab: "(a, b) \<in> strongAdj adj threshold" for a b
    proof (cases "a = nodeId")
      case False
      with a have "a \<in> fst ?r - visited'" unfolding visited'_def by blast
      from closed [rule_format, OF this ab] show ?thesis .
    next
      case True
      from ab obtain w where w: "(b, w) \<in> set (adjGet adj nodeId)" "w > threshold"
        unfolding strongAdj_def True by blast
      show ?thesis
      proof (cases "b \<in> visited'")
        case True
        with sub show ?thesis by blast
      next
        case False
        with w have "(b, w) \<in> set (filter (\<lambda>n. fst n \<notin> visited' \<and> snd n > threshold) (adjGet adj nodeId))"
          by simp
        then have "fst (b, w) \<in> fst ` set (filter (\<lambda>n. fst n \<notin> visited' \<and> snd n > threshold) (adjGet adj nodeId))"
          by (rule imageI)
        then have "b \<in> set (fst qc)" unfolding q by simp
        with sub show ?thesis by blast
      qed
    qed
    have a5: "\<forall>a \<in> fst ?r - visited. \<forall>b. (a, b) \<in> strongAdj adj threshold \<longrightarrow> b \<in> fst ?r"
      using a4 by blast
    from a1 conjI [OF a2 a5] show ?thesis unfolding res by (rule conjI)
  qed
qed


text \<open>The adjacency list is symmetric, its keys are the node ids, and it holds every edge
  between two nodes in both directions.\<close>

lemma addAdjEdge_sym:
  assumes "\<forall>a b w. (b, w) \<in> set (adjGet m a) \<longrightarrow> (a, w) \<in> set (adjGet m b)"
  shows "\<forall>a b w. (b, w) \<in> set (adjGet (addAdjEdge m e) a)
                   \<longrightarrow> (a, w) \<in> set (adjGet (addAdjEdge m e) b)"
  using assms by (auto simp: addAdjEdge_def adjGet_adjPush)

lemma foldl_addAdjEdge_sym:
  assumes "\<forall>a b w. (b, w) \<in> set (adjGet m a) \<longrightarrow> (a, w) \<in> set (adjGet m b)"
  shows "\<forall>a b w. (b, w) \<in> set (adjGet (foldl addAdjEdge m es) a)
                   \<longrightarrow> (a, w) \<in> set (adjGet (foldl addAdjEdge m es) b)"
  using assms
proof (induction es arbitrary: m)
  case Nil
  then show ?case by simp
next
  case (Cons e es)
  from Cons.IH [OF addAdjEdge_sym [OF Cons.prems, of e]] show ?case by simp
qed

lemma buildAdjList_sym:
  "(b, w) \<in> set (adjGet (buildAdjList ns es) a) \<Longrightarrow> (a, w) \<in> set (adjGet (buildAdjList ns es) b)"
proof -
  let ?m0 = "foldl (\<lambda>m n. mapSet (node_id n) [] m) [] ns"
  have "\<forall>a b w. (b, w) \<in> set (adjGet ?m0 a) \<longrightarrow> (a, w) \<in> set (adjGet ?m0 b)"
    by (simp add: adjGet_initial) (simp add: adjGet_def)
  from foldl_addAdjEdge_sym [OF this, of es]
  show "(b, w) \<in> set (adjGet (buildAdjList ns es) a) \<Longrightarrow> (a, w) \<in> set (adjGet (buildAdjList ns es) b)"
    by (simp add: buildAdjList_def)
qed

lemma sym_strongAdj_buildAdjList: "sym (strongAdj (buildAdjList ns es) t)"
  by (auto simp: sym_def strongAdj_def dest: buildAdjList_sym)

lemma adjHas_adjPush: "adjHas (adjPush k x m) a \<longleftrightarrow> a = k \<or> adjHas m a"
  by (simp add: adjPush_def adjHas_def map_of_mapSet)

lemma adjHas_addAdjEdge: "adjHas (addAdjEdge m e) a = adjHas m a"
  by (auto simp: addAdjEdge_def adjHas_adjPush)

lemma adjHas_foldl_addAdjEdge: "adjHas (foldl addAdjEdge m es) a = adjHas m a"
  by (induction es arbitrary: m) (simp_all add: adjHas_addAdjEdge)

lemma adjHas_initial:
  "adjHas (foldl (\<lambda>m n. mapSet (node_id n) [] m) m0 ns) a \<longleftrightarrow> a \<in> node_id ` set ns \<or> adjHas m0 a"
  by (induction ns arbitrary: m0) (auto simp: adjHas_def map_of_mapSet)

lemma adjHas_buildAdjList: "adjHas (buildAdjList ns es) a \<longleftrightarrow> a \<in> node_id ` set ns"
  by (simp add: buildAdjList_def adjHas_foldl_addAdjEdge adjHas_initial) (simp add: adjHas_def)

lemma adjGet_addAdjEdge_mono:
  "x \<in> set (adjGet m a) \<Longrightarrow> x \<in> set (adjGet (addAdjEdge m e) a)"
  by (auto simp: addAdjEdge_def adjGet_adjPush)

lemma adjGet_foldl_addAdjEdge_mono:
  "x \<in> set (adjGet m a) \<Longrightarrow> x \<in> set (adjGet (foldl addAdjEdge m es) a)"
  by (induction es arbitrary: m) (simp_all add: adjGet_addAdjEdge_mono)

lemma adjGet_addAdjEdge_new:
  assumes "adjHas m (source e)" "adjHas m (target e)"
  shows "(target e, weight e) \<in> set (adjGet (addAdjEdge m e) (source e))"
    and "(source e, weight e) \<in> set (adjGet (addAdjEdge m e) (target e))"
  using assms by (auto simp: addAdjEdge_def adjGet_adjPush)

lemma adjGet_foldl_addAdjEdge_new:
  assumes "e \<in> set es" "adjHas m (source e)" "adjHas m (target e)"
  shows "(target e, weight e) \<in> set (adjGet (foldl addAdjEdge m es) (source e))
       \<and> (source e, weight e) \<in> set (adjGet (foldl addAdjEdge m es) (target e))"
  using assms
proof (induction es arbitrary: m)
  case Nil
  then show ?case by simp
next
  case (Cons x es)
  show ?case
  proof (cases "e = x")
    case True
    from adjGet_addAdjEdge_new [OF Cons.prems(2,3)] show ?thesis
      by (simp add: True [symmetric] adjGet_foldl_addAdjEdge_mono)
  next
    case False
    with Cons.prems have "e \<in> set es" by simp
    from Cons.IH [OF this, of "addAdjEdge m x"] Cons.prems(2,3) show ?thesis
      by (simp add: adjHas_addAdjEdge)
  qed
qed

lemma strongLink_buildAdjList:
  assumes "(a, b) \<in> strongLink es" "a \<in> node_id ` set ns" "b \<in> node_id ` set ns"
  shows "(a, b) \<in> strongAdj (buildAdjList ns es) 0.3"
proof -
  from assms(1) obtain e where e: "e \<in> set es" "weight e > 0.3"
      "(source e = a \<and> target e = b) \<or> (source e = b \<and> target e = a)"
    by (auto simp: strongLink_def)
  let ?m0 = "foldl (\<lambda>m n. mapSet (node_id n) [] m) [] ns"
  have "adjHas ?m0 (source e)" "adjHas ?m0 (target e)"
    using e(3) assms(2,3) by (auto simp: adjHas_initial)
  from adjGet_foldl_addAdjEdge_new [OF e(1) this]
  have "(target e, weight e) \<in> set (adjGet (buildAdjList ns es) (source e))"
       "(source e, weight e) \<in> set (adjGet (buildAdjList ns es) (target e))"
    by (simp_all add: buildAdjList_def)
  with e(2,3) show ?thesis by (auto simp: strongAdj_def)
qed

lemma strongAdj_target_is_node:
  assumes "(a, b) \<in> strongAdj (buildAdjList ns es) t"
  shows "b \<in> node_id ` set ns"
proof -
  from assms obtain w where "(b, w) \<in> set (adjGet (buildAdjList ns es) a)"
    by (auto simp: strongAdj_def)
  from buildAdjList_sym [OF this] have "adjGet (buildAdjList ns es) b \<noteq> []" by auto
  then have "adjHas (buildAdjList ns es) b"
    by (auto simp: adjGet_def adjHas_def split: option.splits)
  then show ?thesis by (simp add: adjHas_buildAdjList)
qed


lemma exploreWeightedCommunity_visited:
  "insert s V \<subseteq> fst (exploreWeightedCommunity s adj V)"
  "set (c_nodes (snd (exploreWeightedCommunity s adj V))) = fst (exploreWeightedCommunity s adj V) - V"
  "\<forall>a \<in> fst (exploreWeightedCommunity s adj V) - V.
     \<forall>b. (a, b) \<in> strongAdj adj 0.3 \<longrightarrow> b \<in> fst (exploreWeightedCommunity s adj V)"
proof -
  note v = exploreLoop_visited [of V "[s]" adj "0.3" "\<lparr> c_nodes = [], c_total_weight = 0, c_edges = 0 \<rparr>",
      folded exploreWeightedCommunity_def]
  from v show "insert s V \<subseteq> fst (exploreWeightedCommunity s adj V)" by simp
  from v show "set (c_nodes (snd (exploreWeightedCommunity s adj V))) = fst (exploreWeightedCommunity s adj V) - V"
    by simp
  from conjunct2 [OF conjunct2 [OF v]]
  show "\<forall>a \<in> fst (exploreWeightedCommunity s adj V) - V.
     \<forall>b. (a, b) \<in> strongAdj adj 0.3 \<longrightarrow> b \<in> fst (exploreWeightedCommunity s adj V)" .
qed

text \<open>One pass of the outer loop keeps the invariant.\<close>

lemma detectInv_step:
  assumes inv: "detectInv A N V cs" and A: "A = strongAdj adj 0.3" and symA: "sym A"
    and s: "s \<notin> V" "s \<in> N" and tgt: "\<And>a b. (a, b) \<in> A \<Longrightarrow> b \<in> N"
  defines "r \<equiv> exploreWeightedCommunity s adj V"
  shows "detectInv A N (fst r)
           (if 1 < length (c_nodes (snd r)) then cs @ [makeCommunity (snd r) es] else cs)"
proof -
  let ?R = "fst r" and ?C = "set (c_nodes (snd r))"
  have sub: "insert s V \<subseteq> ?R" and C: "?C = ?R - V"
    and new: "\<forall>a \<in> ?R - V. \<forall>b. (a, b) \<in> A \<longrightarrow> b \<in> ?R"
    unfolding r_def A by (rule exploreWeightedCommunity_visited)+
  from inv have cV: "closedUnder A V"
    and old: "\<forall>c \<in> set cs. set (com_nodes c) \<subseteq> N \<and> closedUnder A (set (com_nodes c))"
    and cov: "\<forall>a \<in> V. (\<exists>b. b \<noteq> a \<and> (a, b) \<in> A) \<longrightarrow> (\<exists>c \<in> set cs. a \<in> set (com_nodes c))"
    unfolding detectInv_def by (rule conjunct1, rule conjunct1 [OF conjunct2], rule conjunct2 [OF conjunct2])
  have cR: "closedUnder A ?R"
    unfolding closedUnder_def
  proof (intro ballI allI impI)
    fix a b assume a: "a \<in> ?R" and ab: "(a, b) \<in> A"
    show "b \<in> ?R"
    proof (cases "a \<in> V")
      case True
      with cV ab have "b \<in> V" unfolding closedUnder_def by blast
      with sub show ?thesis by blast
    next
      case False
      with a new ab show ?thesis by blast
    qed
  qed
  have cC: "closedUnder A ?C"
    unfolding closedUnder_def
  proof (intro ballI allI impI)
    fix a b assume a: "a \<in> ?C" and ab: "(a, b) \<in> A"
    from a C have aR: "a \<in> ?R" and aV: "a \<notin> V" by blast+
    from cR aR ab have bR: "b \<in> ?R" unfolding closedUnder_def by blast
    have "b \<notin> V"
    proof
      assume "b \<in> V"
      moreover from symA ab have "(b, a) \<in> A" by (rule symD)
      ultimately have "a \<in> V" using cV unfolding closedUnder_def by blast
      with aV show False ..
    qed
    with bR C show "b \<in> ?C" by blast
  qed
  have reach: "(s, x) \<in> A\<^sup>*" if "x \<in> ?C" for x
    using exploreWeightedCommunity_reachable [of x s adj V] that unfolding r_def A by simp
  have CN: "?C \<subseteq> N"
  proof
    fix x assume "x \<in> ?C"
    from reach [OF this] show "x \<in> N"
      by (induction rule: rtrancl_induct) (auto intro: s tgt)
  qed
  have com: "set (com_nodes (makeCommunity (snd r) es)) = ?C"
    by (simp add: makeCommunity_def Let_def sortNodeIds_def)
  show ?thesis
  proof (cases "1 < length (c_nodes (snd r))")
    case True
    have "\<exists>c \<in> set (cs @ [makeCommunity (snd r) es]). a \<in> set (com_nodes c)"
      if "a \<in> ?R" "\<exists>b. b \<noteq> a \<and> (a, b) \<in> A" for a
    proof (cases "a \<in> V")
      case True
      with cov that(2) show ?thesis by auto
    next
      case False
      with that(1) C have "a \<in> ?C" by blast
      then show ?thesis by (simp add: com)
    qed
    with True cR cC CN old show ?thesis
      unfolding detectInv_def by (simp add: com)
  next
    case False
    have "\<exists>c \<in> set cs. a \<in> set (com_nodes c)"
      if "a \<in> ?R" "\<exists>b. b \<noteq> a \<and> (a, b) \<in> A" for a
    proof (cases "a \<in> V")
      case True
      with cov that(2) show ?thesis by blast
    next
      case aV: False
      with that(1) C have aC: "a \<in> ?C" by blast
      from that(2) obtain b where b: "b \<noteq> a" "(a, b) \<in> A" by blast
      from cC aC b(2) have bC: "b \<in> ?C" unfolding closedUnder_def by blast
      from aC bC b(1) have "card {a, b} \<le> card ?C"
        by (intro card_mono) auto
      also have "\<dots> \<le> length (c_nodes (snd r))" by (rule card_length)
      finally have "1 < length (c_nodes (snd r))" using b(1) by simp
      with False show ?thesis ..
    qed
    with False cR old show ?thesis
      unfolding detectInv_def by simp
  qed
qed

lemma detectLoop_invariant:
  assumes "detectInv A N V cs" "A = strongAdj adj 0.3" "sym A"
    "node_id ` set todo \<subseteq> N" "\<And>a b. (a, b) \<in> A \<Longrightarrow> b \<in> N"
  shows "\<exists>V'. V \<union> node_id ` set todo \<subseteq> V' \<and> detectInv A N V' (detectLoop todo adj es V cs)"
  using assms(1,4)
proof (induction todo arbitrary: V cs)
  case Nil
  then show ?case by auto
next
  case (Cons n todo)
  from Cons.prems(2) have nN: "node_id n \<in> N" and rest: "node_id ` set todo \<subseteq> N" by auto
  show ?case
  proof (cases "node_id n \<in> V")
    case True
    from Cons.IH [OF Cons.prems(1) rest] True show ?thesis by auto
  next
    case False
    let ?r = "exploreWeightedCommunity (node_id n) adj V"
    let ?cs = "if 1 < length (c_nodes (snd ?r)) then cs @ [makeCommunity (snd ?r) es] else cs"
    from detectInv_step [OF Cons.prems(1) assms(2,3) False nN assms(5)]
    have "detectInv A N (fst ?r) ?cs" by simp
    from Cons.IH [OF this rest]
    obtain V' where V': "fst ?r \<union> node_id ` set todo \<subseteq> V'"
        "detectInv A N V' (detectLoop todo adj es (fst ?r) ?cs)" by blast
    have res: "detectLoop (n # todo) adj es V cs = detectLoop todo adj es (fst ?r) ?cs"
      using False by (simp add: Let_def)
    have "insert (node_id n) V \<subseteq> fst ?r" by (rule exploreWeightedCommunity_visited)
    with V'(1) have "V \<union> node_id ` set (n # todo) \<subseteq> V'" by auto
    with V'(2) show ?thesis unfolding res by blast
  qed
qed


lemma detectInvD:
  assumes "detectInv A N V cs"
  shows "closedUnder A V"
    and "\<And>c. c \<in> set cs \<Longrightarrow> set (com_nodes c) \<subseteq> N"
    and "\<And>c. c \<in> set cs \<Longrightarrow> closedUnder A (set (com_nodes c))"
    and "\<And>a b. a \<in> V \<Longrightarrow> b \<noteq> a \<Longrightarrow> (a, b) \<in> A \<Longrightarrow> \<exists>c \<in> set cs. a \<in> set (com_nodes c)"
  using assms unfolding detectInv_def by blast+

lemma closedUnderD: "closedUnder A V \<Longrightarrow> a \<in> V \<Longrightarrow> (a, b) \<in> A \<Longrightarrow> b \<in> V"
  unfolding closedUnder_def by blast

lemma detectCommunityStructures_components:
  shows "\<forall>c \<in> set (detectCommunityStructures ns es).
           \<forall>a \<in> set (com_nodes c). \<forall>b \<in> node_id ` set ns.
             (a, b) \<in> strongLink es \<longrightarrow> b \<in> set (com_nodes c)"
    and "\<forall>a \<in> node_id ` set ns. \<forall>b \<in> node_id ` set ns.
           a \<noteq> b \<and> (a, b) \<in> strongLink es \<longrightarrow>
             (\<exists>c \<in> set (detectCommunityStructures ns es). a \<in> set (com_nodes c))"
proof -
  define A where "A = strongAdj (buildAdjList ns es) 0.3"
  define N where "N = node_id ` set ns"
  define found where "found = detectLoop ns (buildAdjList ns es) es {} []"
  have cs: "set (detectCommunityStructures ns es) = set found"
    by (simp add: detectCommunityStructures_def found_def)
  have link: "(a, b) \<in> A" if "(a, b) \<in> strongLink es" "a \<in> N" "b \<in> N" for a b
    using strongLink_buildAdjList [of a b es ns] that unfolding A_def N_def by simp
  have inv: "detectInv A N {} []" by (simp add: detectInv_def closedUnder_def)
  have symA: "sym A" unfolding A_def by (rule sym_strongAdj_buildAdjList)
  have tgt: "\<And>a b. (a, b) \<in> A \<Longrightarrow> b \<in> N"
    unfolding A_def N_def by (rule strongAdj_target_is_node)
  have "node_id ` set ns \<subseteq> N" by (simp add: N_def)
  from detectLoop_invariant [OF inv A_def symA this tgt, where es = es]
  have "\<exists>V'. N \<subseteq> V' \<and> detectInv A N V' found"
    unfolding found_def N_def by simp
  then obtain V' where V': "N \<subseteq> V' \<and> detectInv A N V' found" ..
  note V'1 = conjunct1 [OF V'] and V'2 = conjunct2 [OF V']
  note D = detectInvD [OF V'2]
  show "\<forall>c \<in> set (detectCommunityStructures ns es).
           \<forall>a \<in> set (com_nodes c). \<forall>b \<in> node_id ` set ns.
             (a, b) \<in> strongLink es \<longrightarrow> b \<in> set (com_nodes c)"
    unfolding cs N_def [symmetric]
  proof (intro ballI impI)
    fix c a b
    assume c: "c \<in> set found" and a: "a \<in> set (com_nodes c)" and b: "b \<in> N"
      and ab: "(a, b) \<in> strongLink es"
    from D(2) [OF c] a have "a \<in> N" by (rule subsetD)
    from closedUnderD [OF D(3) [OF c] a link [OF ab this b]]
    show "b \<in> set (com_nodes c)" .
  qed
  show "\<forall>a \<in> node_id ` set ns. \<forall>b \<in> node_id ` set ns.
           a \<noteq> b \<and> (a, b) \<in> strongLink es \<longrightarrow>
             (\<exists>c \<in> set (detectCommunityStructures ns es). a \<in> set (com_nodes c))"
    unfolding cs N_def [symmetric]
  proof (intro ballI impI)
    fix a b
    assume a: "a \<in> N" and b: "b \<in> N" and ab: "a \<noteq> b \<and> (a, b) \<in> strongLink es"
    from ab have ne: "b \<noteq> a" by auto
    from a V'1 have "a \<in> V'" by (rule subsetD [rotated])
    from D(4) [OF this ne link [OF conjunct2 [OF ab] a b]]
    show "\<exists>c \<in> set found. a \<in> set (com_nodes c)" .
  qed
qed

text \<open>
  C7. Community detection is a flood fill from each unvisited node that follows only
  edges of weight strictly above 0.3, and it reports the connected components of more
  than one node: every community it reports has more than one member, any two of its
  members are joined by a path of edges of weight above 0.3, a community holds every
  node that such an edge joins to one of its members, and every node that such an edge
  joins to another node is in a community. On the five-node graph it reports exactly
  one community, with members 1, 2 and 3, so no community holds node 4 or node 5.
\<close>

theorem detectCommunityStructures_flood_fill:
  "(\<forall>c \<in> set (detectCommunityStructures ns es).
      1 < length (com_nodes c) \<and>
      (\<forall>a \<in> set (com_nodes c). \<forall>b \<in> set (com_nodes c). (a, b) \<in> (strongLink es)\<^sup>*) \<and>
      (\<forall>a \<in> set (com_nodes c). \<forall>b \<in> node_id ` set ns.
         (a, b) \<in> strongLink es \<longrightarrow> b \<in> set (com_nodes c)))
   \<and> (\<forall>a \<in> node_id ` set ns. \<forall>b \<in> node_id ` set ns.
         a \<noteq> b \<and> (a, b) \<in> strongLink es \<longrightarrow>
           (\<exists>c \<in> set (detectCommunityStructures ns es). a \<in> set (com_nodes c)))
   \<and> map com_nodes (detectCommunityStructures five_nodes five_edges) = [[1, 2, 3]]"
proof -
  have members: "\<forall>c \<in> set (detectCommunityStructures ns es).
      1 < length (com_nodes c) \<and>
      (\<forall>a \<in> set (com_nodes c). \<forall>b \<in> set (com_nodes c). (a, b) \<in> (strongLink es)\<^sup>*) \<and>
      (\<forall>a \<in> set (com_nodes c). \<forall>b \<in> node_id ` set ns.
         (a, b) \<in> strongLink es \<longrightarrow> b \<in> set (com_nodes c))"
  proof (rule ballI)
    fix c assume c: "c \<in> set (detectCommunityStructures ns es)"
    from detectCommunityStructures_ok [OF c]
    have ok: "1 < length (com_nodes c) \<and>
      (\<forall>a \<in> set (com_nodes c). \<forall>b \<in> set (com_nodes c). (a, b) \<in> (strongLink es)\<^sup>*)"
      unfolding communityOk_def .
    from conjunct1 [OF ok] conjI [OF conjunct2 [OF ok] bspec [OF detectCommunityStructures_components(1) c]]
    show "1 < length (com_nodes c) \<and>
      (\<forall>a \<in> set (com_nodes c). \<forall>b \<in> set (com_nodes c). (a, b) \<in> (strongLink es)\<^sup>*) \<and>
      (\<forall>a \<in> set (com_nodes c). \<forall>b \<in> node_id ` set ns.
         (a, b) \<in> strongLink es \<longrightarrow> b \<in> set (com_nodes c))"
      by (rule conjI)
  qed
  have scenario: "map com_nodes (detectCommunityStructures five_nodes five_edges) = [[1, 2, 3]]"
    by code_simp
  from members conjI [OF detectCommunityStructures_components(2) scenario]
  show ?thesis by (rule conjI)
qed

theorem detectCommunityStructures_flood_fill_witness:
  "list_all (\<lambda>c. 1 < length (com_nodes c) \<and> (1, 3) \<in> (strongLink five_edges)\<^sup>*)
     (detectCommunityStructures five_nodes five_edges)
   \<and> list_all (\<lambda>c. 4 \<notin> set (com_nodes c) \<and> 5 \<notin> set (com_nodes c))
     (detectCommunityStructures five_nodes five_edges)
   \<and> list_ex (\<lambda>c. 2 \<in> set (com_nodes c)) (detectCommunityStructures five_nodes five_edges)"
proof -
  let ?r = "detectCommunityStructures five_nodes five_edges"
  note flood = detectCommunityStructures_flood_fill [of five_nodes five_edges]
  note members = conjunct2 [OF conjunct2 [OF flood]]
  then obtain c where r: "?r = [c]" and c: "com_nodes c = [1, 2, 3]" by auto
  have cin: "c \<in> set ?r" unfolding r by simp
  note P = bspec [OF conjunct1 [OF flood] cin]
  have "(1, 3) \<in> (strongLink five_edges)\<^sup>*"
    by (rule bspec [OF bspec [OF conjunct1 [OF conjunct2 [OF P]]]]) (simp_all add: c)
  with conjunct1 [OF P] have "1 < length (com_nodes c) \<and> (1, 3) \<in> (strongLink five_edges)\<^sup>*" ..
  then show ?thesis unfolding r by (simp add: c)
qed
section \<open>Properties of the temporal-correlation pass\<close>

lemma temporalPair_step:
  assumes "temporalMetaOk es"
  shows "\<exists>es'. temporalPair ns hour es p = Some es' \<and> temporalMetaOk es' \<and>
           temporalWeight es' i =
             (if hit ns i p
              then (case temporalWeight es i of None \<Rightarrow> Some 0.4 | Some w \<Rightarrow> Some (w + 0.2))
              else temporalWeight es i)"
proof (cases "nodesHas ns (fst (fst p)) \<and> nodesHas ns (fst (snd p))")
  case False
  then show ?thesis using assms by (auto simp: temporalPair_def hit_def Let_def)
next
  case True
  let ?id = "temporalEdgeId (fst (fst p)) (fst (snd p))"
  have tid: "snd (snd ?id) = ''temporal''" by (simp add: temporalEdgeId_def)
  show ?thesis
  proof (cases "map_of es ?id")
    case None
    let ?e = "\<lparr> edge_id = ?id, source = fst (fst p), target = fst (snd p),
                 edge_type = ''temporal_correlation'', weight = 0.4,
                 metadata = TemporalMeta [hour] ''activity_timing'' \<rparr>"
    have res: "temporalPair ns hour es p = Some (es @ [(?id, ?e)])"
      using True None by (simp add: temporalPair_def Let_def)
    have m: "map_of (es @ [(?id, ?e)]) = (map_of es)(?id \<mapsto> ?e)"
      using None by (rule map_of_snoc_new)
    have ok: "temporalMetaOk (es @ [(?id, ?e)])"
      using assms unfolding temporalMetaOk_def m by auto
    have w: "temporalWeight (es @ [(?id, ?e)]) i =
             (if hit ns i p
              then (case temporalWeight es i of None \<Rightarrow> Some 0.4 | Some w \<Rightarrow> Some (w + 0.2))
              else temporalWeight es i)"
      using True None unfolding temporalWeight_def m by (auto simp: hit_def)
    from res ok w show ?thesis by blast
  next
    case (Some e)
    with assms tid have "metadata e \<noteq> OtherMeta"
      unfolding temporalMetaOk_def by blast
    then obtain hours ct where meta: "metadata e = TemporalMeta hours ct"
      by (cases "metadata e") auto
    let ?e = "e\<lparr> metadata := TemporalMeta (hours @ [hour]) ct, weight := weight e + 0.2 \<rparr>"
    have res: "temporalPair ns hour es p = Some (mapSet ?id ?e es)"
      using True Some meta by (simp add: temporalPair_def Let_def)
    have ok: "temporalMetaOk (mapSet ?id ?e es)"
      using assms unfolding temporalMetaOk_def map_of_mapSet by auto
    have w: "temporalWeight (mapSet ?id ?e es) i =
             (if hit ns i p
              then (case temporalWeight es i of None \<Rightarrow> Some 0.4 | Some w \<Rightarrow> Some (w + 0.2))
              else temporalWeight es i)"
      using True Some unfolding temporalWeight_def map_of_mapSet by (auto simp: hit_def)
    from res ok w show ?thesis by blast
  qed
qed

lemma countedWeight_step:
  "countedWeight (case w of None \<Rightarrow> Some 0.4 | Some v \<Rightarrow> Some (v + 0.2)) k = countedWeight w (Suc k)"
  by (cases w) (simp_all add: countedWeight_def algebra_simps)

lemma temporalPairs_fold:
  assumes "temporalMetaOk es"
  shows "\<exists>es'. foldOption (temporalPair ns hour) es ps = Some es' \<and> temporalMetaOk es' \<and>
           temporalWeight es' i = countedWeight (temporalWeight es i) (length (filter (hit ns i) ps))"
  using assms
proof (induction ps arbitrary: es)
  case Nil
  then show ?case by (simp add: countedWeight_def split: option.splits)
next
  case (Cons p ps)
  from temporalPair_step [OF Cons.prems, of ns hour p i]
  obtain es1 where s1: "temporalPair ns hour es p = Some es1" "temporalMetaOk es1"
    "temporalWeight es1 i =
             (if hit ns i p
              then (case temporalWeight es i of None \<Rightarrow> Some 0.4 | Some w \<Rightarrow> Some (w + 0.2))
              else temporalWeight es i)" by blast
  from Cons.IH [OF s1(2)]
  obtain es' where s2: "foldOption (temporalPair ns hour) es1 ps = Some es'" "temporalMetaOk es'"
    "temporalWeight es' i = countedWeight (temporalWeight es1 i) (length (filter (hit ns i) ps))"
    by blast
  have "temporalWeight es' i
          = countedWeight (temporalWeight es i) (length (filter (hit ns i) (p # ps)))"
    unfolding s2(3) s1(3) by (simp add: countedWeight_step)
  with s1(1) s2(1,2) show ?case by simp
qed

lemma countedWeight_add:
  "countedWeight (countedWeight w j) k = countedWeight w (j + k)"
  by (cases w) (auto simp: countedWeight_def field_simps)

lemma pairsOf_short: "length xs \<le> 1 \<Longrightarrow> pairsOf xs = []"
  by (cases xs) (auto simp: le_Suc_eq)

lemma temporalHour_step:
  assumes "temporalMetaOk es"
  shows "\<exists>es'. temporalHour ns es bucket = Some es' \<and> temporalMetaOk es' \<and>
           temporalWeight es' i = countedWeight (temporalWeight es i) (bucketHits ns i bucket)"
proof (cases "length (snd bucket) > 1")
  case True
  then show ?thesis
    using temporalPairs_fold [OF assms, of ns "fst bucket" "pairsOf (snd bucket)" i]
    by (simp add: temporalHour_def Let_def bucketHits_def)
next
  case False
  then have "pairsOf (snd bucket) = []" by (intro pairsOf_short) simp
  with False assms show ?thesis
    by (simp add: temporalHour_def Let_def bucketHits_def countedWeight_def split: option.splits)
qed

lemma temporalHours_fold:
  assumes "temporalMetaOk es"
  shows "\<exists>es'. foldOption (temporalHour ns) es buckets = Some es' \<and> temporalMetaOk es' \<and>
           temporalWeight es' i =
             countedWeight (temporalWeight es i) (sum_list (map (bucketHits ns i) buckets))"
  using assms
proof (induction buckets arbitrary: es)
  case Nil
  then show ?case by (simp add: countedWeight_def split: option.splits)
next
  case (Cons bucket buckets)
  from temporalHour_step [OF Cons.prems, of ns bucket i]
  obtain es1 where s1: "temporalHour ns es bucket = Some es1" "temporalMetaOk es1"
    "temporalWeight es1 i = countedWeight (temporalWeight es i) (bucketHits ns i bucket)"
    by blast
  from Cons.IH [OF s1(2)]
  obtain es' where s2: "foldOption (temporalHour ns) es1 buckets = Some es'" "temporalMetaOk es'"
    "temporalWeight es' i =
       countedWeight (temporalWeight es1 i) (sum_list (map (bucketHits ns i) buckets))"
    by blast
  have "temporalWeight es' i =
          countedWeight (temporalWeight es i) (sum_list (map (bucketHits ns i) (bucket # buckets)))"
    unfolding s2(3) s1(3) by (simp add: countedWeight_add)
  with s1(1) s2(1,2) show ?case by simp
qed

lemma hourlyActivity_buckets:
  "distinct (map fst (hourlyActivity rows))"
  "set (map fst (hourlyActivity rows)) = activity_hour ` set rows"
  "map_of (hourlyActivity rows) h = (if bucketOf rows h = [] then None else Some (bucketOf rows h))"
  using foldl_mapPush [of activity_hour "\<lambda>r. (pattern_agent r, activity_count r)" rows]
  by (simp_all add: hourlyActivity_def bucketOf_def)

lemma activityCount_pos: "0 < activityCount posts a h \<longleftrightarrow> (a, h) \<in> set posts"
  by (auto simp: activityCount_def filter_empty_conv)

lemma temporalPatterns_mem:
  "r \<in> set (temporalPatterns posts) \<longleftrightarrow>
     activity_count r = activityCount posts (pattern_agent r) (activity_hour r)
     \<and> 2 < activity_count r \<and> activity_pattern.more r = ()"
proof
  assume "r \<in> set (temporalPatterns posts)"
  then show "activity_count r = activityCount posts (pattern_agent r) (activity_hour r)
     \<and> 2 < activity_count r \<and> activity_pattern.more r = ()"
    by (auto simp: temporalPatterns_def)
next
  assume r: "activity_count r = activityCount posts (pattern_agent r) (activity_hour r)
     \<and> 2 < activity_count r \<and> activity_pattern.more r = ()"
  then have "0 < activityCount posts (pattern_agent r) (activity_hour r)" by simp
  then have "(pattern_agent r, activity_hour r) \<in> set posts" by (simp add: activityCount_pos)
  with r show "r \<in> set (temporalPatterns posts)"
    by (force simp: temporalPatterns_def)
qed

lemma temporalPatterns_distinct:
  "distinct (map (\<lambda>r. (pattern_agent r, activity_hour r)) (temporalPatterns posts))"
proof -
  have "map (\<lambda>r. (pattern_agent r, activity_hour r))
          (map (\<lambda>p. \<lparr> pattern_agent = fst p, activity_hour = snd p,
                    activity_count = activityCount posts (fst p) (snd p) \<rparr>) (remdups posts))
          = remdups posts"
    by (simp add: comp_def)
  then have "distinct (map (\<lambda>r. (pattern_agent r, activity_hour r))
          (map (\<lambda>p. \<lparr> pattern_agent = fst p, activity_hour = snd p,
                    activity_count = activityCount posts (fst p) (snd p) \<rparr>) (remdups posts)))"
    by simp
  then show ?thesis unfolding temporalPatterns_def by (rule distinct_map_filter)
qed

lemma bucketOf_agents:
  "a \<in> fst ` set (bucketOf (temporalPatterns posts) h) \<longleftrightarrow> 2 < activityCount posts a h"
proof
  assume "a \<in> fst ` set (bucketOf (temporalPatterns posts) h)"
  then obtain r where "r \<in> set (temporalPatterns posts)" "pattern_agent r = a" "activity_hour r = h"
    by (auto simp: bucketOf_def)
  then show "2 < activityCount posts a h" by (auto simp: temporalPatterns_mem)
next
  assume c: "2 < activityCount posts a h"
  let ?r = "\<lparr> pattern_agent = a, activity_hour = h, activity_count = activityCount posts a h \<rparr>"
  from c have "?r \<in> set (temporalPatterns posts)" by (simp add: temporalPatterns_mem)
  then have "(a, activityCount posts a h) \<in> set (bucketOf (temporalPatterns posts) h)"
    by (force simp: bucketOf_def)
  then show "a \<in> fst ` set (bucketOf (temporalPatterns posts) h)" by force
qed

lemma map_fst_bucketOf:
  "map fst (bucketOf rows h) = map pattern_agent (filter (\<lambda>r. activity_hour r = h) rows)"
  by (simp add: bucketOf_def comp_def)

lemma distinct_bucket_agents:
  assumes "distinct (map (\<lambda>r. (pattern_agent r, activity_hour r)) rows)"
  shows "distinct (map fst (bucketOf rows h))"
  unfolding map_fst_bucketOf using assms
proof (induction rows)
  case Nil
  show ?case by simp
next
  case (Cons r rows)
  from Cons have IH: "distinct (map pattern_agent (filter (\<lambda>r. activity_hour r = h) rows))"
    by simp
  show ?case
  proof (cases "activity_hour r = h")
    case False
    with IH show ?thesis by simp
  next
    case True
    have "pattern_agent r \<notin> pattern_agent ` {x \<in> set rows. activity_hour x = h}"
    proof
      assume "pattern_agent r \<in> pattern_agent ` {x \<in> set rows. activity_hour x = h}"
      then obtain r' where "r' \<in> set rows" "pattern_agent r' = pattern_agent r" "activity_hour r' = h"
        by auto
      then have "(pattern_agent r, activity_hour r) \<in> (\<lambda>r. (pattern_agent r, activity_hour r)) ` set rows"
        using True by (intro image_eqI [where x = r']) simp_all
      with Cons.prems show False by simp
    qed
    with IH True show ?thesis by simp
  qed
qed

lemma temporalEdgeId_eq:
  "temporalEdgeId x y = temporalEdgeId a b \<longleftrightarrow> (x = a \<and> y = b) \<or> (x = b \<and> y = a)"
  by (auto simp: temporalEdgeId_def min_def max_def split: if_splits)

lemma count_fst_distinct:
  "distinct (map fst L) \<Longrightarrow> length (filter (\<lambda>y. fst y = b) L) = (if b \<in> fst ` set L then 1 else 0)"
  by (induction L) (auto simp: image_iff)

lemma pair_hits:
  assumes "distinct (map fst L)" "a \<noteq> b"
  shows "length (filter (\<lambda>p. temporalEdgeId (fst (fst p)) (fst (snd p)) = temporalEdgeId a b)
                   (pairsOf L))
         = (if a \<in> fst ` set L \<and> b \<in> fst ` set L then 1 else 0)"
  using assms(1)
proof (induction L)
  case Nil
  show ?case by simp
next
  case (Cons x L)
  let ?P = "\<lambda>p. temporalEdgeId (fst (fst p)) (fst (snd p)) = temporalEdgeId a b"
  from Cons have d: "distinct (map fst L)" and nx: "fst x \<notin> fst ` set L" by simp_all
  from Cons have IH: "length (filter ?P (pairsOf L))
                       = (if a \<in> fst ` set L \<and> b \<in> fst ` set L then 1 else 0)" by simp
  have first: "length (filter ?P (map (Pair x) L)) =
                 (if fst x = a then length (filter (\<lambda>y. fst y = b) L)
                  else if fst x = b then length (filter (\<lambda>y. fst y = a) L) else 0)"
    using assms(2) by (auto simp: filter_map comp_def temporalEdgeId_eq intro: arg_cong [where f = length] filter_cong)
  show ?case
  proof (cases "fst x = a")
    case True
    with nx have "a \<notin> fst ` set L" by simp
    with True first IH assms(2) count_fst_distinct [OF d, of b] show ?thesis by auto
  next
    case False
    show ?thesis
    proof (cases "fst x = b")
      case True
      with nx have "b \<notin> fst ` set L" by simp
      with True False first IH count_fst_distinct [OF d, of a] show ?thesis by auto
    next
      case nb: False
      with False first IH show ?thesis by auto
    qed
  qed
qed

lemma bucketHits_distinct:
  assumes "distinct (map fst (snd bucket))" "a \<noteq> b"
  shows "bucketHits ns (temporalEdgeId a b) bucket =
           (if nodesHas ns a \<and> nodesHas ns b
               \<and> a \<in> fst ` set (snd bucket) \<and> b \<in> fst ` set (snd bucket) then 1 else 0)"
proof -
  let ?P = "\<lambda>p. temporalEdgeId (fst (fst p)) (fst (snd p)) = temporalEdgeId a b"
  have "filter (hit ns (temporalEdgeId a b)) ps =
          (if nodesHas ns a \<and> nodesHas ns b then filter ?P ps else [])" for ps
    by (induction ps) (auto simp: hit_def temporalEdgeId_eq)
  then have f: "bucketHits ns (temporalEdgeId a b) bucket =
      length (if nodesHas ns a \<and> nodesHas ns b then filter ?P (pairsOf (snd bucket)) else [])"
    by (simp only: bucketHits_def)
  show ?thesis
  proof (cases "nodesHas ns a \<and> nodesHas ns b")
    case True
    then show ?thesis unfolding f using pair_hits [OF assms] by (simp only: if_True) auto
  next
    case False
    then show ?thesis unfolding f by auto
  qed
qed

lemma total_hits:
  assumes "a \<noteq> b"
  shows "sum_list (map (bucketHits ns (temporalEdgeId a b))
                    (hourlyActivity (temporalPatterns posts)))
         = (if nodesHas ns a \<and> nodesHas ns b then length (overlappingHours posts a b) else 0)"
proof -
  let ?rows = "temporalPatterns posts"
  let ?buckets = "hourlyActivity ?rows"
  let ?Q = "\<lambda>h. activityCount posts a h > 2 \<and> activityCount posts b h > 2"
  let ?N = "nodesHas ns a \<and> nodesHas ns b"
  have bucket: "snd bk = bucketOf ?rows (fst bk)" if "bk \<in> set ?buckets" for bk
  proof -
    from that have "map_of ?buckets (fst bk) = Some (snd bk)"
      using hourlyActivity_buckets(1) [of ?rows] by simp
    then show ?thesis by (simp add: hourlyActivity_buckets(3) split: if_splits)
  qed
  have "bucketHits ns (temporalEdgeId a b) bk = (if ?N \<and> ?Q (fst bk) then 1 else 0)"
    if "bk \<in> set ?buckets" for bk
  proof -
    have "distinct (map fst (snd bk))"
      unfolding bucket [OF that]
      by (rule distinct_bucket_agents) (rule temporalPatterns_distinct)
    from bucketHits_distinct [OF this assms, of ns] show ?thesis
      by (simp add: bucket [OF that] bucketOf_agents)
  qed
  then have "sum_list (map (bucketHits ns (temporalEdgeId a b)) ?buckets)
        = sum_list (map (\<lambda>bk. if ?N \<and> ?Q (fst bk) then 1 else 0) ?buckets)"
    by (intro arg_cong [where f = sum_list] map_cong) simp_all
  also have "\<dots> = length (filter (\<lambda>bk. ?N \<and> ?Q (fst bk)) ?buckets)"
    by (rule sum_list_indicator)
  also have "\<dots> = (if ?N then length (filter ?Q (map fst ?buckets)) else 0)"
  proof (cases ?N)
    case True
    then show ?thesis by (simp add: filter_map comp_def)
  next
    case False
    then have "filter (\<lambda>bk. ?N \<and> ?Q (fst bk)) ?buckets = []" by (auto simp: filter_empty_conv)
    with False show ?thesis by (simp only: if_False list.size)
  qed
  also have "length (filter ?Q (map fst ?buckets)) = length (overlappingHours posts a b)"
  proof (rule same_length_distinct)
    show "distinct (filter ?Q (map fst ?buckets))"
      using hourlyActivity_buckets(1) [of ?rows] by simp
    show "distinct (overlappingHours posts a b)"
      by (simp add: overlappingHours_def)
    have "h \<in> activity_hour ` set ?rows" if "?Q h" for h
    proof -
      let ?r = "\<lparr> pattern_agent = a, activity_hour = h, activity_count = activityCount posts a h \<rparr>"
      from that have "?r \<in> set ?rows" by (simp add: temporalPatterns_mem)
      then show ?thesis by force
    qed
    moreover have "h \<in> snd ` set posts" if "?Q h" for h
    proof -
      from that have "0 < activityCount posts a h" by simp
      then have "(a, h) \<in> set posts" by (simp add: activityCount_pos)
      then show ?thesis by force
    qed
    ultimately show "set (filter ?Q (map fst ?buckets)) = set (overlappingHours posts a b)"
      using hourlyActivity_buckets(2) [of ?rows] by (auto simp: overlappingHours_def)
  qed
  finally show ?thesis .
qed

lemma noTemporalIds_start:
  assumes "noTemporalIds es"
  shows "temporalMetaOk es" "temporalWeight es (temporalEdgeId a b) = None"
proof -
  have no: "map_of es i = None" if "snd (snd i) = ''temporal''" for i
  proof (rule ccontr)
    assume "map_of es i \<noteq> None"
    then obtain e where "(i, e) \<in> set es" by (auto dest: map_of_SomeD)
    with assms that show False by (auto simp: noTemporalIds_def list_all_iff)
  qed
  then show "temporalMetaOk es" by (auto simp: temporalMetaOk_def)
  from no [of "temporalEdgeId a b"] show "temporalWeight es (temporalEdgeId a b) = None"
    by (simp add: temporalWeight_def temporalEdgeId_def)
qed

text \<open>
  C8, as the code has it. The pass creates a temporal edge between two distinct agents
  exactly when both are nodes of the graph and there is at least one hour of day in which
  each of them has more than 2 posts in the window; the weight of the edge is 0.4 for the
  first such hour plus 0.2 for each further one. The edges Map holds no temporal edge when
  the pass starts, since the earlier passes use other id suffixes.
\<close>

theorem addTemporalInteractionEdges_weight:
  assumes "a \<noteq> b" "noTemporalIds es"
  shows "map_option (\<lambda>es'. temporalWeight es' (temporalEdgeId a b))
           (addTemporalInteractionEdges ns posts es)
         = Some (if nodesHas ns a \<and> nodesHas ns b \<and> overlappingHours posts a b \<noteq> []
                 then Some (0.4 + 0.2 * (real (length (overlappingHours posts a b)) - 1))
                 else None)"
proof -
  from temporalHours_fold [OF noTemporalIds_start(1) [OF assms(2)],
         of ns "hourlyActivity (temporalPatterns posts)" "temporalEdgeId a b"]
  obtain es' where r: "addTemporalInteractionEdges ns posts es = Some es'"
    and w: "temporalWeight es' (temporalEdgeId a b) =
             countedWeight (temporalWeight es (temporalEdgeId a b))
               (sum_list (map (bucketHits ns (temporalEdgeId a b))
                  (hourlyActivity (temporalPatterns posts))))"
    by (auto simp: addTemporalInteractionEdges_def)
  have w': "temporalWeight es' (temporalEdgeId a b) =
             countedWeight None
               (if nodesHas ns a \<and> nodesHas ns b then length (overlappingHours posts a b) else 0)"
    unfolding w noTemporalIds_start(2) [OF assms(2)] total_hits [OF assms(1)] ..
  show ?thesis
  proof (cases "nodesHas ns a \<and> nodesHas ns b \<and> overlappingHours posts a b \<noteq> []")
    case True
    then show ?thesis using w' by (simp add: r countedWeight_def)
  next
    case False
    then have "(if nodesHas ns a \<and> nodesHas ns b then length (overlappingHours posts a b) else 0) = 0"
      by auto
    with False show ?thesis using w' by (simp add: r countedWeight_def)
  qed
qed

theorem addTemporalInteractionEdges_weight_witness:
  "noTemporalIds [] \<and> overlappingHours three_hour_posts 2 3 = [5, 7, 9]
   \<and> map_option (\<lambda>es'. temporalWeight es' (temporalEdgeId 2 3))
        (addTemporalInteractionEdges (map star_node [2, 3]) three_hour_posts [])
      = Some (Some 0.8)"
proof -
  have n: "noTemporalIds []" by (simp add: noTemporalIds_def)
  have d: "(2::nat) \<noteq> 3" by simp
  have o: "overlappingHours three_hour_posts 2 3 = [5, 7, 9]" by code_simp
  have h: "nodesHas (map star_node [2, 3]) 2 \<and> nodesHas (map star_node [2, 3]) 3"
    by (simp add: nodesHas_def star_node_def)
  from addTemporalInteractionEdges_weight [OF d n, of "map star_node [2, 3]" three_hour_posts]
  have "map_option (\<lambda>es'. temporalWeight es' (temporalEdgeId 2 3))
        (addTemporalInteractionEdges (map star_node [2, 3]) three_hour_posts [])
      = Some (Some 0.8)"
    unfolding o using h by simp
  with n o show ?thesis by blast
qed

text \<open>
  C8, as the claim states it, fails: agents 1 and 2 overlap in one hourly bucket only
  (hour 5, three posts each), which is not more than 2 overlapping buckets, and the pass
  still creates their edge, with weight 0.4.
\<close>

theorem temporal_edge_single_hour_counterexample:
  "length (overlappingHours one_hour_posts 1 2) = 1
   \<and> map_option (\<lambda>es'. temporalWeight es' (temporalEdgeId 1 2))
        (addTemporalInteractionEdges (map star_node [1, 2]) one_hour_posts [])
      = Some (Some 0.4)"
  by code_simp


section \<open>Properties of the composite score\<close>

lemma lookupAlias_agent: "lookupAlias t a al = Some r \<Longrightarrow> rs_agent_id r = a \<and> rs_platform r = platformOf al"
  unfolding lookupAlias_def findRow_def by (auto simp: find_Some_iff)

lemma lookupAlias_subSelect: "lookupAlias t a al = find (\<lambda>r. rs_agent_id r = a) (subSelect t al)"
  unfolding lookupAlias_def findRow_def subSelect_def
  by (induction t) auto

lemma lookupAlias_unique:
  assumes "keysDistinct t" "r \<in> set (subSelect t al)"
  shows "lookupAlias t (rs_agent_id r) al = Some r"
proof -
  let ?P = "\<lambda>x. rs_agent_id x = rs_agent_id r \<and> rs_platform x = platformOf al"
  from assms(2) have r: "r \<in> set t" "rs_platform r = platformOf al"
    by (auto simp: subSelect_def)
  then obtain x where x: "find ?P t = Some x" by (cases "find ?P t") (auto simp: find_None_iff)
  then have "x \<in> set t" "rs_agent_id x = rs_agent_id r" "rs_platform x = rs_platform r"
    using r(2) by (auto simp: find_Some_iff)
  with assms(1) r(1) have "x = r"
    unfolding keysDistinct_def by (auto simp: distinct_map dest: inj_onD)
  with x show ?thesis by (simp add: lookupAlias_def findRow_def)
qed

lemma subSelect_distinct:
  assumes "keysDistinct t"
  shows "distinct (map rs_agent_id (subSelect t al))"
proof -
  have "distinct (map (\<lambda>r. (rs_agent_id r, rs_platform r)) (subSelect t al))"
    using assms unfolding keysDistinct_def subSelect_def by (rule distinct_map_filter)
  moreover have "map (\<lambda>r. (rs_agent_id r, rs_platform r)) (subSelect t al)
                  = map (\<lambda>a. (a, platformOf al)) (map rs_agent_id (subSelect t al))"
    by (simp add: subSelect_def comp_def cong: map_cong)
  ultimately have "distinct (map (\<lambda>a. (a, platformOf al)) (map rs_agent_id (subSelect t al)))"
    by simp
  then show ?thesis by (simp only: distinct_map)
qed

lemma coalesceId_rowFor:
  assumes "hasAny t P a" "\<forall>al \<in> set P. j al = lookupAlias t a al"
  shows "coalesceId P j = Some a"
  using assms
proof (induction P)
  case Nil
  then show ?case by (simp add: hasAny_def)
next
  case (Cons al P)
  show ?case
  proof (cases "lookupAlias t a al")
    case None
    with Cons.prems have "hasAny t P a" by (simp add: hasAny_def)
    with Cons None show ?thesis by simp
  next
    case (Some r)
    with Cons.prems lookupAlias_agent [OF Some] show ?thesis by simp
  qed
qed

lemma coalesceId_rowFor_self: "hasAny t P a \<Longrightarrow> coalesceId P (rowFor t P a) = Some a"
  using coalesceId_rowFor [of t P a "rowFor t P a"] by (simp add: rowFor_def)

lemma coalesceId_none: "\<forall>al \<in> set P. j al = None \<Longrightarrow> coalesceId P j = None"
  by (induction P) simp_all

lemma filter_unique:
  assumes "distinct xs" "\<forall>x \<in> set xs. \<forall>y \<in> set xs. Q x \<longrightarrow> Q y \<longrightarrow> x = y"
  shows "filter Q xs = (case find Q xs of None \<Rightarrow> [] | Some x \<Rightarrow> [x])"
  using assms
proof (induction xs)
  case Nil
  show ?case by simp
next
  case (Cons x xs)
  show ?case
  proof (cases "Q x")
    case True
    have "filter Q xs = []"
    proof (rule ccontr)
      assume "filter Q xs \<noteq> []"
      then obtain y where "y \<in> set xs" "Q y" by (auto simp: filter_empty_conv)
      with Cons.prems True have "x = y" by auto
      with Cons.prems(1) \<open>y \<in> set xs\<close> show False by simp
    qed
    with True show ?thesis by simp
  next
    case False
    with Cons show ?thesis by simp
  qed
qed

lemma fullOuterJoin_mset:
  assumes "distinct rs"
      and "\<forall>l \<in> set ls. \<forall>r \<in> set rs. \<forall>r' \<in> set rs. joinOn prev l r \<longrightarrow> joinOn prev l r' \<longrightarrow> r = r'"
  shows "mset (fullOuterJoin prev al ls rs) =
           mset (map (joinLeft prev al rs) ls) + mset (map (joinPut al nullRow) (filter (unmatched prev ls) rs))"
proof -
  let ?g = "\<lambda>l. map (joinPut al l) (filter (joinOn prev l) rs)"
  let ?nm = "\<lambda>l. \<not> list_ex (joinOn prev l) rs"
  have one: "mset (?g l) + mset (filter ?nm [l]) = {# joinLeft prev al rs l #}" if "l \<in> set ls" for l
  proof -
    have f: "filter (joinOn prev l) rs = (case find (joinOn prev l) rs of None \<Rightarrow> [] | Some x \<Rightarrow> [x])"
      using assms(1) assms(2) that by (intro filter_unique) auto
    show ?thesis
    proof (cases "find (joinOn prev l) rs")
      case None
      then have "?nm l" by (auto simp: find_None_iff list_ex_iff)
      with None f show ?thesis by (simp add: joinLeft_def)
    next
      case (Some r)
      then have "\<not> ?nm l" by (auto simp: find_Some_iff list_ex_iff)
      with Some f show ?thesis by (simp add: joinLeft_def)
    qed
  qed
  have "mset (concat (map ?g xs)) + mset (filter ?nm xs) = mset (map (joinLeft prev al rs) xs)"
    if "set xs \<subseteq> set ls" for xs
    using that
  proof (induction xs)
    case Nil
    show ?case by simp
  next
    case (Cons x xs)
    from Cons.prems have "set xs \<subseteq> set ls" by simp
    then have IH: "mset (concat (map ?g xs)) + mset (filter ?nm xs) = mset (map (joinLeft prev al rs) xs)"
      by (rule Cons.IH)
    from Cons.prems have "x \<in> set ls" by simp
    from one [OF this] have o: "mset (?g x) + mset (filter ?nm [x]) = {# joinLeft prev al rs x #}" .
    have "mset (concat (map ?g (x # xs))) + mset (filter ?nm (x # xs))
            = (mset (?g x) + mset (filter ?nm [x]))
              + (mset (concat (map ?g xs)) + mset (filter ?nm xs))"
      by simp
    also have "\<dots> = {# joinLeft prev al rs x #} + mset (map (joinLeft prev al rs) xs)"
      by (simp only: o IH)
    finally show ?case by simp
  qed
  from this [of ls] show ?thesis
    by (simp add: fullOuterJoin_def unmatched_def)
qed

lemma hasAny_snoc: "hasAny t (P @ [al]) a \<longleftrightarrow> hasAny t P a \<or> lookupAlias t a al \<noteq> None"
  by (auto simp: hasAny_def)

lemma hasAny_iff: "hasAny t P a \<longleftrightarrow> (\<exists>al \<in> set P. lookupAlias t a al \<noteq> None)"
  by (simp add: hasAny_def list_ex_iff)

lemma join_step:
  assumes inv: "joinInv t P ls" and good: "keysDistinct t" and new: "al \<notin> set P"
  shows "joinInv t (P @ [al]) (fullOuterJoin P al ls (subSelect t al))"
proof -
  let ?rs = "subSelect t al"
  let ?P' = "P @ [al]"
  from inv have dl: "distinct (map (coalesceId P) ls)"
    and sl: "set ls = rowFor t P ` {a. hasAny t P a}" by (simp_all add: joinInv_def)
  have drs: "distinct (map rs_agent_id ?rs)" using good by (rule subSelect_distinct)
  then have drs': "distinct ?rs" by (simp add: distinct_map)
  have on: "joinOn P (rowFor t P a) r \<longleftrightarrow> rs_agent_id r = a" if "hasAny t P a" for a r
    using coalesceId_rowFor_self [OF that] by (auto simp: joinOn_def)
  have uniq: "\<forall>l \<in> set ls. \<forall>r \<in> set ?rs. \<forall>r' \<in> set ?rs. joinOn P l r \<longrightarrow> joinOn P l r' \<longrightarrow> r = r'"
  proof (intro ballI impI)
    fix l r r' assume "l \<in> set ls" "r \<in> set ?rs" "r' \<in> set ?rs" "joinOn P l r" "joinOn P l r'"
    then have "rs_agent_id r = rs_agent_id r'" by (simp add: joinOn_def)
    with drs \<open>r \<in> set ?rs\<close> \<open>r' \<in> set ?rs\<close> show "r = r'"
      by (auto simp: distinct_map dest: inj_onD)
  qed
  have left: "joinLeft P al ?rs (rowFor t P a) = rowFor t ?P' a" if "hasAny t P a" for a
  proof -
    have "find (joinOn P (rowFor t P a)) ?rs = lookupAlias t a al"
      unfolding lookupAlias_subSelect using on [OF that] by (intro find_cong) simp_all
    then show ?thesis
      using new by (auto simp: joinLeft_def joinPut_def rowFor_def fun_eq_iff split: option.splits)
  qed
  have um: "unmatched P ls r \<longleftrightarrow> \<not> hasAny t P (rs_agent_id r)" for r
  proof
    assume u: "unmatched P ls r"
    show "\<not> hasAny t P (rs_agent_id r)"
    proof
      assume h: "hasAny t P (rs_agent_id r)"
      then have "rowFor t P (rs_agent_id r) \<in> set ls" by (simp add: sl)
      moreover have "joinOn P (rowFor t P (rs_agent_id r)) r" using on [OF h] by simp
      ultimately show False using u by (auto simp: unmatched_def list_ex_iff)
    qed
  next
    assume n: "\<not> hasAny t P (rs_agent_id r)"
    have "\<not> joinOn P l r" if "l \<in> set ls" for l
    proof -
      from that obtain a where a: "hasAny t P a" "l = rowFor t P a" by (auto simp: sl)
      with n have "a \<noteq> rs_agent_id r" by auto
      with on [OF a(1), of r] a(2) show ?thesis by auto
    qed
    then show "unmatched P ls r" by (auto simp: unmatched_def list_ex_iff)
  qed
  have right: "joinPut al nullRow r = rowFor t ?P' (rs_agent_id r)"
    if "r \<in> set ?rs" "\<not> hasAny t P (rs_agent_id r)" for r
  proof -
    have "lookupAlias t (rs_agent_id r) al = Some r"
      using good that(1) by (rule lookupAlias_unique)
    moreover have "lookupAlias t (rs_agent_id r) al' = None" if "al' \<in> set P" for al'
      using \<open>\<not> hasAny t P (rs_agent_id r)\<close> that by (auto simp: hasAny_iff)
    ultimately show ?thesis
      using new by (auto simp: joinPut_def nullRow_def rowFor_def fun_eq_iff)
  qed
  have m: "mset (fullOuterJoin P al ls ?rs) =
             mset (map (joinLeft P al ?rs) ls) + mset (map (joinPut al nullRow) (filter (unmatched P ls) ?rs))"
    using drs' uniq by (rule fullOuterJoin_mset)
  have "set (fullOuterJoin P al ls ?rs) =
          joinLeft P al ?rs ` set ls \<union> joinPut al nullRow ` {r \<in> set ?rs. unmatched P ls r}"
    using arg_cong [OF m, of set_mset] by simp
  also have "joinLeft P al ?rs ` set ls = rowFor t ?P' ` {a. hasAny t P a}"
    unfolding sl using left by (auto simp: image_iff)
  also have "joinPut al nullRow ` {r \<in> set ?rs. unmatched P ls r}
               = rowFor t ?P' ` {a. \<not> hasAny t P a \<and> lookupAlias t a al \<noteq> None}"
  proof (intro set_eqI iffI)
    fix j assume "j \<in> joinPut al nullRow ` {r \<in> set ?rs. unmatched P ls r}"
    then obtain r where r: "r \<in> set ?rs" "\<not> hasAny t P (rs_agent_id r)" "j = joinPut al nullRow r"
      by (auto simp: um)
    moreover have "lookupAlias t (rs_agent_id r) al = Some r"
      using good r(1) by (rule lookupAlias_unique)
    ultimately show "j \<in> rowFor t ?P' ` {a. \<not> hasAny t P a \<and> lookupAlias t a al \<noteq> None}"
      using right [OF r(1,2)] by auto
  next
    fix j assume "j \<in> rowFor t ?P' ` {a. \<not> hasAny t P a \<and> lookupAlias t a al \<noteq> None}"
    then obtain a r where a: "\<not> hasAny t P a" "lookupAlias t a al = Some r" "j = rowFor t ?P' a"
      by auto
    from a(2) have ra: "rs_agent_id r = a" by (auto dest: lookupAlias_agent)
    from a(2) have "r \<in> set ?rs"
      unfolding lookupAlias_subSelect by (auto simp: find_Some_iff)
    with a ra right [of r] um [of r] show "j \<in> joinPut al nullRow ` {r \<in> set ?rs. unmatched P ls r}"
      by (intro image_eqI [where x = r]) auto
  qed
  finally have s: "set (fullOuterJoin P al ls ?rs) = rowFor t ?P' ` {a. hasAny t ?P' a}"
    by (auto simp: hasAny_snoc)
  have keyL: "coalesceId ?P' (joinLeft P al ?rs l) = coalesceId P l" if "l \<in> set ls" for l
  proof -
    from that obtain a where a: "hasAny t P a" "l = rowFor t P a" by (auto simp: sl)
    then have "hasAny t ?P' a" by (simp add: hasAny_snoc)
    then show ?thesis
      using left [OF a(1)] coalesceId_rowFor_self [of t ?P' a] coalesceId_rowFor_self [OF a(1)]
      by (simp add: a(2))
  qed
  have keyR: "coalesceId ?P' (joinPut al nullRow r) = Some (rs_agent_id r)"
    if "r \<in> set ?rs" "unmatched P ls r" for r
  proof -
    from that have n: "\<not> hasAny t P (rs_agent_id r)" by (simp add: um)
    have "lookupAlias t (rs_agent_id r) al = Some r"
      using good that(1) by (rule lookupAlias_unique)
    then have "hasAny t ?P' (rs_agent_id r)" by (simp add: hasAny_snoc)
    then show ?thesis
      using right [OF that(1) n] coalesceId_rowFor_self [of t ?P' "rs_agent_id r"] by simp
  qed
  have "mset (map (coalesceId ?P') (fullOuterJoin P al ls ?rs)) =
          mset (map (coalesceId P) ls @ map (Some \<circ> rs_agent_id) (filter (unmatched P ls) ?rs))"
  proof -
    have "mset (map (coalesceId ?P') (fullOuterJoin P al ls ?rs))
            = image_mset (coalesceId ?P') (mset (fullOuterJoin P al ls ?rs))" by simp
    also have "\<dots> = mset (map (coalesceId ?P' \<circ> joinLeft P al ?rs) ls)
                     + mset (map (coalesceId ?P' \<circ> joinPut al nullRow) (filter (unmatched P ls) ?rs))"
      unfolding m by (simp add: multiset.map_comp comp_def)
    also have "map (coalesceId ?P' \<circ> joinLeft P al ?rs) ls = map (coalesceId P) ls"
      using keyL by (intro map_cong) simp_all
    also have "map (coalesceId ?P' \<circ> joinPut al nullRow) (filter (unmatched P ls) ?rs)
                 = map (Some \<circ> rs_agent_id) (filter (unmatched P ls) ?rs)"
      using keyR by (intro map_cong) simp_all
    finally show ?thesis by simp
  qed
  moreover have "distinct (map (coalesceId P) ls @ map (Some \<circ> rs_agent_id) (filter (unmatched P ls) ?rs))"
  proof -
    have "distinct (map (Some \<circ> rs_agent_id) (filter (unmatched P ls) ?rs))"
    proof -
      have "distinct (map rs_agent_id (filter (unmatched P ls) ?rs))"
        using drs by (rule distinct_map_filter)
      then show ?thesis by (simp add: distinct_map inj_on_def comp_def)
    qed
    moreover have "set (map (coalesceId P) ls)
                    \<inter> set (map (Some \<circ> rs_agent_id) (filter (unmatched P ls) ?rs)) = {}"
      by (auto simp: unmatched_def list_ex_iff joinOn_def)
    ultimately show ?thesis using dl by simp
  qed
  ultimately have "distinct (map (coalesceId ?P') (fullOuterJoin P al ls ?rs))"
    by (metis mset_eq_imp_distinct_iff)
  with s show ?thesis by (simp add: joinInv_def)
qed

lemma joinInv_empty: "joinInv t [] []"
  by (simp add: joinInv_def hasAny_def)

lemma joinInv_joinedScores:
  assumes "keysDistinct t"
  shows "joinInv t [MB, MX, CC, EQ, SEC, LG] (joinedScores t)"
proof -
  have j0: "map (joinPut MB nullRow) (subSelect t MB) = fullOuterJoin [] MB [] (subSelect t MB)"
    by (simp add: fullOuterJoin_def)
  have i0: "joinInv t [MB] (map (joinPut MB nullRow) (subSelect t MB))"
    unfolding j0 using join_step [OF joinInv_empty assms, of MB] by simp
  from join_step [OF i0 assms, of MX] have i1:
    "joinInv t [MB, MX] (fullOuterJoin [MB] MX (map (joinPut MB nullRow) (subSelect t MB)) (subSelect t MX))"
    by simp
  from join_step [OF i1 assms, of CC] have i2:
    "joinInv t [MB, MX, CC] (fullOuterJoin [MB, MX] CC
       (fullOuterJoin [MB] MX (map (joinPut MB nullRow) (subSelect t MB)) (subSelect t MX))
       (subSelect t CC))"
    by simp
  from join_step [OF i2 assms, of EQ] have i3:
    "joinInv t [MB, MX, CC, EQ] (fullOuterJoin [MB, MX, CC] EQ (fullOuterJoin [MB, MX] CC
       (fullOuterJoin [MB] MX (map (joinPut MB nullRow) (subSelect t MB)) (subSelect t MX))
       (subSelect t CC)) (subSelect t EQ))"
    by simp
  from join_step [OF i3 assms, of SEC] have i4:
    "joinInv t [MB, MX, CC, EQ, SEC] (fullOuterJoin [MB, MX, CC, EQ] SEC
       (fullOuterJoin [MB, MX, CC] EQ (fullOuterJoin [MB, MX] CC
       (fullOuterJoin [MB] MX (map (joinPut MB nullRow) (subSelect t MB)) (subSelect t MX))
       (subSelect t CC)) (subSelect t EQ)) (subSelect t SEC))"
    by simp
  from join_step [OF i4 assms, of LG] show ?thesis
    by (simp add: joinedScores_def Let_def)
qed

lemma compositeRow_rowFor:
  assumes "hasAny t [MB, MX, CC, EQ, SEC, LG] a"
  shows "compositeRow (rowFor t [MB, MX, CC, EQ, SEC, LG] a) = Some (compositeFor t a)"
  using coalesceId_rowFor_self [OF assms] by (simp add: compositeRow_def compositeFor_def)

lemma sequenceRows_map:
  "\<forall>x \<in> set xs. f x = Some (g x) \<Longrightarrow> sequenceRows (map f xs) = Some (map g xs)"
  by (induction xs) simp_all

lemma find_map_same:
  "(\<And>x. P (f x) = P x) \<Longrightarrow> find P (map f xs) = map_option f (find P xs)"
  by (induction xs) simp_all

lemma find_snoc:
  "find P (xs @ [x]) = (case find P xs of Some y \<Rightarrow> Some y | None \<Rightarrow> if P x then Some x else None)"
  by (induction xs) simp_all

lemma findRow_upsert_same:
  "\<exists>c. findRow (upsert t r) (rs_agent_id r) (rs_platform r) = Some c
       \<and> score c = score r \<and> factor_breakdown c = factor_breakdown r"
proof (cases "list_ex (sameKey r) t")
  case True
  let ?P = "\<lambda>x. rs_agent_id x = rs_agent_id r \<and> rs_platform x = rs_platform r"
  let ?f = "\<lambda>x. if sameKey r x then x\<lparr> score := score r, factor_breakdown := factor_breakdown r \<rparr> else x"
  have pf: "find ?P (map ?f t) = map_option ?f (find ?P t)"
    by (rule find_map_same) simp
  from True obtain x where x: "find ?P t = Some x"
    by (cases "find ?P t") (auto simp: find_None_iff list_ex_iff sameKey_def)
  then have "sameKey r x" by (auto simp: find_Some_iff sameKey_def)
  with x True show ?thesis
    by (simp add: upsert_def findRow_def pf)
next
  case False
  then have "find (\<lambda>x. rs_agent_id x = rs_agent_id r \<and> rs_platform x = rs_platform r) t = None"
    by (auto simp: find_None_iff list_ex_iff sameKey_def)
  with False show ?thesis by (simp add: upsert_def findRow_def find_snoc)
qed

lemma findRow_upsert_other:
  assumes "a \<noteq> rs_agent_id r \<or> p \<noteq> rs_platform r"
  shows "findRow (upsert t r) a p = findRow t a p"
proof (cases "list_ex (sameKey r) t")
  case True
  let ?P = "\<lambda>x. rs_agent_id x = a \<and> rs_platform x = p"
  let ?f = "\<lambda>x. if sameKey r x then x\<lparr> score := score r, factor_breakdown := factor_breakdown r \<rparr> else x"
  have pf: "find ?P (map ?f t) = map_option ?f (find ?P t)"
    by (rule find_map_same) simp
  have "map_option ?f (find ?P t) = find ?P t"
  proof (cases "find ?P t")
    case None
    then show ?thesis by simp
  next
    case (Some x)
    then have "\<not> sameKey r x" using assms by (auto simp: find_Some_iff sameKey_def)
    with Some show ?thesis by simp
  qed
  with True show ?thesis by (simp add: upsert_def findRow_def pf)
next
  case False
  with assms show ?thesis by (auto simp: upsert_def findRow_def find_snoc split: option.splits)
qed

lemma findRow_foldl_upsert_other:
  assumes "\<forall>r \<in> set rows. a \<noteq> rs_agent_id r"
  shows "findRow (foldl upsert t rows) a p = findRow t a p"
  using assms by (induction rows arbitrary: t) (simp_all add: findRow_upsert_other)

lemma findRow_foldl_upsert:
  assumes "distinct (map rs_agent_id rows)" "r \<in> set rows"
  shows "\<exists>c. findRow (foldl upsert t rows) (rs_agent_id r) (rs_platform r) = Some c
            \<and> score c = score r \<and> factor_breakdown c = factor_breakdown r"
  using assms
proof (induction rows arbitrary: t)
  case Nil
  then show ?case by simp
next
  case (Cons x xs)
  show ?case
  proof (cases "r = x")
    case True
    from Cons.prems(1) have "\<forall>y \<in> set xs. rs_agent_id x \<noteq> rs_agent_id y" by auto
    then have "findRow (foldl upsert (upsert t x) xs) (rs_agent_id x) (rs_platform x)
                 = findRow (upsert t x) (rs_agent_id x) (rs_platform x)"
      by (rule findRow_foldl_upsert_other)
    with findRow_upsert_same [of t x] True show ?thesis by simp
  next
    case False
    with Cons.prems have "r \<in> set xs" "distinct (map rs_agent_id xs)" by simp_all
    from Cons.IH [OF this(2,1), of "upsert t x"] show ?thesis by simp
  qed
qed

lemma findRow_None_iff: "findRow t a p = None \<longleftrightarrow> \<not> list_ex (\<lambda>r. rs_agent_id r = a \<and> rs_platform r = p) t"
  by (auto simp: findRow_def find_None_iff list_ex_iff)

lemma hasAny_hasSubScore: "hasAny t [MB, MX, CC, EQ, SEC, LG] a \<longleftrightarrow> hasSubScore t a"
  by (auto simp: hasAny_def hasSubScore_def lookupAlias_def findRow_None_iff list_ex_iff)

lemma scoreOr0_rowFor:
  "al \<in> set P \<Longrightarrow> scoreOr0 (rowFor t P a) al = subScore t a (platformOf al)"
  by (simp add: scoreOr0_def rowFor_def subScore_def lookupAlias_def)

lemma calculateCompositeScore_row:
  assumes "keysDistinct t" "hasSubScore t a"
  shows "\<exists>t' c. calculateCompositeScore t = Some t' \<and> findRow t' a ''composite'' = Some c
           \<and> score c = score (compositeFor t a)
           \<and> factor_breakdown c = factor_breakdown (compositeFor t a)"
proof -
  let ?P = "[MB, MX, CC, EQ, SEC, LG]"
  let ?js = "joinedScores t"
  let ?g = "\<lambda>j. compositeFor t (the (coalesceId ?P j))"
  from joinInv_joinedScores [OF assms(1)]
  have d: "distinct (map (coalesceId ?P) ?js)"
    and s: "set ?js = rowFor t ?P ` {a. hasAny t ?P a}" by (simp_all add: joinInv_def)
  have each: "compositeRow j = Some (?g j) \<and> coalesceId ?P j \<noteq> None" if "j \<in> set ?js" for j
  proof -
    from that obtain b where b: "hasAny t ?P b" "j = rowFor t ?P b" by (auto simp: s)
    with compositeRow_rowFor [OF b(1)] coalesceId_rowFor_self [OF b(1)] show ?thesis by simp
  qed
  then have seq: "sequenceRows (map compositeRow ?js) = Some (map ?g ?js)"
    by (intro sequenceRows_map) simp
  have eq: "map rs_agent_id (map ?g ?js) = map (the \<circ> coalesceId ?P) ?js"
    by (simp add: compositeFor_def comp_def del: coalesceId.simps)
  have "distinct (map (the \<circ> coalesceId ?P) ?js)"
  proof -
    have "inj_on the (set (map (coalesceId ?P) ?js))"
    proof (rule inj_onI)
      fix x y
      assume x: "x \<in> set (map (coalesceId ?P) ?js)" and y: "y \<in> set (map (coalesceId ?P) ?js)"
        and e: "the x = the y"
      from x each have "x \<noteq> None" by (auto simp del: coalesceId.simps)
      moreover from y each have "y \<noteq> None" by (auto simp del: coalesceId.simps)
      ultimately show "x = y" using e by auto
    qed
    with d have "distinct (map the (map (coalesceId ?P) ?js))" by (simp only: distinct_map simp_thms)
    then show ?thesis by (simp only: map_map)
  qed
  then have dist: "distinct (map rs_agent_id (map ?g ?js))" by (simp only: eq)
  then have res: "calculateCompositeScore t = Some (foldl upsert t (map ?g ?js))"
    by (simp add: calculateCompositeScore_def seq)
  from assms(2) have h: "hasAny t ?P a" by (simp add: hasAny_hasSubScore)
  then have "rowFor t ?P a \<in> set ?js" by (simp add: s)
  then have "?g (rowFor t ?P a) \<in> set (map ?g ?js)" by simp
  then have mem: "compositeFor t a \<in> set (map ?g ?js)"
    using coalesceId_rowFor_self [OF h] by simp
  from findRow_foldl_upsert [OF dist mem, of t] res show ?thesis
    by (simp add: compositeFor_def)
qed

text \<open>
  C1. For every agent with at least one sub-score row, calculateCompositeScore writes a
  composite row whose score is 0.20 * moltbook + 0.20 * moltx + 0.10 * 4claw +
  0.25 * engagement\_quality + 0.20 * security\_record + 0.05 * longevity, a missing
  sub-score counting as 0, clamped to [0,100]; the factor breakdown written with it holds
  the six sub-scores, and the score is reconstructed exactly from it.
\<close>

theorem calculateCompositeScore_weighted_sum:
  assumes "keysDistinct t" "hasSubScore t a"
  shows "\<exists>t' c. calculateCompositeScore t = Some t' \<and> findRow t' a ''composite'' = Some c
           \<and> score c = Some (min 100 (max 0
                (0.20 * subScore t a ''moltbook'' + 0.20 * subScore t a ''moltx'' +
                 0.10 * subScore t a ''4claw'' + 0.25 * subScore t a ''engagement_quality'' +
                 0.20 * subScore t a ''security_record'' + 0.05 * subScore t a ''longevity'')))
           \<and> factor_breakdown c =
                [(''moltbook'', subScore t a ''moltbook''), (''moltx'', subScore t a ''moltx''),
                 (''4claw'', subScore t a ''4claw''),
                 (''engagement_quality'', subScore t a ''engagement_quality''),
                 (''security'', subScore t a ''security_record''),
                 (''longevity'', subScore t a ''longevity'')]
           \<and> score c = Some (reconstructComposite (factor_breakdown c))"
proof -
  from calculateCompositeScore_row [OF assms]
  obtain t' c where r: "calculateCompositeScore t = Some t'" "findRow t' a ''composite'' = Some c"
    "score c = score (compositeFor t a)" "factor_breakdown c = factor_breakdown (compositeFor t a)"
    by blast
  have sc: "score c = Some (min 100 (max 0
                (0.20 * subScore t a ''moltbook'' + 0.20 * subScore t a ''moltx'' +
                 0.10 * subScore t a ''4claw'' + 0.25 * subScore t a ''engagement_quality'' +
                 0.20 * subScore t a ''security_record'' + 0.05 * subScore t a ''longevity'')))"
    by (simp add: r(3) compositeFor_def compositeOf_def scoreOr0_rowFor mult.commute)
  have bd: "factor_breakdown c =
                [(''moltbook'', subScore t a ''moltbook''), (''moltx'', subScore t a ''moltx''),
                 (''4claw'', subScore t a ''4claw''),
                 (''engagement_quality'', subScore t a ''engagement_quality''),
                 (''security'', subScore t a ''security_record''),
                 (''longevity'', subScore t a ''longevity'')]"
    by (simp add: r(4) compositeFor_def breakdownOf_def scoreOr0_rowFor)
  have rc: "score c = Some (reconstructComposite (factor_breakdown c))"
    unfolding sc bd by (simp add: reconstructComposite_def breakdownValue_def)
  from r(1,2) sc bd rc show ?thesis by blast
qed

theorem calculateCompositeScore_weighted_sum_witness:
  "keysDistinct sample_scores \<and> hasSubScore sample_scores 3
   \<and> (\<exists>t' c. calculateCompositeScore sample_scores = Some t'
          \<and> findRow t' 3 ''composite'' = Some c \<and> score c = Some 4
          \<and> factor_breakdown c =
                [(''moltbook'', 10), (''moltx'', 0), (''4claw'', 0),
                 (''engagement_quality'', 0), (''security'', 0), (''longevity'', 40)])"
proof -
  have k: "keysDistinct sample_scores" by code_simp
  have h: "hasSubScore sample_scores 3" by code_simp
  have s: "subScore sample_scores 3 ''moltbook'' = 10" "subScore sample_scores 3 ''moltx'' = 0"
    "subScore sample_scores 3 ''4claw'' = 0" "subScore sample_scores 3 ''engagement_quality'' = 0"
    "subScore sample_scores 3 ''security_record'' = 0" "subScore sample_scores 3 ''longevity'' = 40"
    by code_simp+
  from calculateCompositeScore_weighted_sum [OF k h]
  have "\<exists>t' c. calculateCompositeScore sample_scores = Some t'
          \<and> findRow t' 3 ''composite'' = Some c \<and> score c = Some 4
          \<and> factor_breakdown c =
                [(''moltbook'', 10), (''moltx'', 0), (''4claw'', 0),
                 (''engagement_quality'', 0), (''security'', 0), (''longevity'', 40)]"
    unfolding s by auto
  with k h show ?thesis by blast
qed

section \<open>Properties of the amplification detector\<close>

lemma foldl_weight_sum:
  "foldl (\<lambda>sum e. sum + weight e) a es = a + sum_list (map weight es)"
  by (induction es arbitrary: a) simp_all

lemma sum_filter_le:
  fixes ws :: "real list"
  assumes "\<forall>w \<in> set ws. 0 \<le> w"
  shows "sum_list (filter P ws) \<le> sum_list ws"
  using assms by (induction ws) auto

lemma sum_filter_gt:
  fixes ws :: "real list"
  assumes "filter (\<lambda>w. c < w) ws \<noteq> []"
  shows "c * real (length (filter (\<lambda>w. c < w) ws)) < sum_list (filter (\<lambda>w. c < w) ws)"
  using assms
proof (induction ws)
  case Nil
  then show ?case by simp
next
  case (Cons w ws)
  show ?case
  proof (cases "c < w")
    case True
    show ?thesis
    proof (cases "filter (\<lambda>w. c < w) ws = []")
      case True
      with \<open>c < w\<close> show ?thesis by simp
    next
      case False
      with Cons.IH have "c * real (length (filter (\<lambda>w. c < w) ws))
                         < sum_list (filter (\<lambda>w. c < w) ws)" by simp
      with \<open>c < w\<close> show ?thesis by (simp add: algebra_simps)
    qed
  next
    case False
    with Cons show ?thesis by simp
  qed
qed

lemma amplification_unsatisfiable:
  fixes ws :: "real list"
  assumes nonneg: "\<forall>w \<in> set ws. 0 \<le> w"
      and many: "5 < length ws"
      and high: "real (length ws) * 0.7
                 \<le> real (length (filter (\<lambda>w. sum_list ws / real (length ws) * 1.5 < w) ws))"
  shows False
proof -
  define n where "n = real (length ws)"
  define c where "c = sum_list ws / n * 1.5"
  define hs where "hs = filter (\<lambda>w. c < w) ws"
  have npos: "0 < n" using many by (cases ws) (simp_all add: n_def)
  have sum_nonneg: "0 \<le> sum_list ws" using nonneg by (simp add: sum_list_nonneg)
  have hlen: "n * 0.7 \<le> real (length hs)" using high by (simp add: n_def c_def hs_def)
  have "0 < n * 0.7" using npos by simp
  with hlen have "0 < real (length hs)" by linarith
  then have ne: "hs \<noteq> []" by auto
  have "c * real (length hs) < sum_list hs"
    using sum_filter_gt [of c ws] ne by (simp add: hs_def)
  moreover have "sum_list hs \<le> sum_list ws"
    using sum_filter_le [OF nonneg] by (simp add: hs_def)
  moreover have "0 \<le> c" using sum_nonneg npos by (simp add: c_def)
  then have "c * (n * 0.7) \<le> c * real (length hs)"
    using hlen by (rule mult_left_mono [rotated])
  moreover have "c * (n * 0.7) = sum_list ws * 1.05"
    using npos by (simp add: c_def)
  ultimately have "sum_list ws * 1.05 < sum_list ws" by linarith
  with sum_nonneg show False by simp
qed

lemma amplificationAt_empty:
  assumes "\<forall>e \<in> set edges. 0 \<le> weight e"
  shows "amplificationAt n edges = []"
proof (rule ccontr)
  assume ne: "amplificationAt n edges \<noteq> []"
  define ces where "ces = connectedEdgesOf (node_id n) edges"
  define ws where "ws = map weight ces"
  from ne have many: "5 < length ces"
    and high: "real (length ces) * 0.7 \<le> real (length (highWeightConnectionsOf ces))"
    by (auto simp: amplificationAt_def Let_def ces_def split: if_splits)
  have nonneg: "\<forall>w \<in> set ws. 0 \<le> w"
    using assms by (auto simp: ws_def ces_def connectedEdgesOf_def)
  have avg: "avgWeightOf ces = sum_list ws / real (length ws)"
    by (simp add: avgWeightOf_def foldl_weight_sum ws_def)
  have "length (highWeightConnectionsOf ces)
        = length (filter (\<lambda>w. sum_list ws / real (length ws) * 1.5 < w) ws)"
    unfolding highWeightConnectionsOf_def avg ws_def
    by (simp add: filter_map comp_def)
  with many high show False
    using amplification_unsatisfiable [OF nonneg] by (simp add: ws_def)
qed

lemma findAmplificationLoop_acc:
  assumes "\<forall>e \<in> set edges. 0 \<le> weight e"
  shows "findAmplificationLoop ns edges patterns = patterns"
  using assms by (induction ns arbitrary: patterns) (simp_all add: amplificationAt_empty)

text \<open>
  C10. On every interaction graph whose edges all have non-negative weights,
  findAmplificationNetworks returns the empty pattern list: no node can have more than
  5 incident edges of which at least 70 percent are heavier than 1.5 times the node's
  mean incident weight.
\<close>

theorem findAmplificationNetworks_nonneg_empty:
  assumes "\<forall>e \<in> set edges. 0 \<le> weight e"
  shows "findAmplificationNetworks nodes edges = []"
  unfolding findAmplificationNetworks_def
  using assms by (rule findAmplificationLoop_acc)

theorem findAmplificationNetworks_nonneg_empty_witness:
  "list_all (\<lambda>e. 0 \<le> weight e) star_edges \<and>
   findAmplificationNetworks (map star_node [1, 2, 3, 4, 5, 6, 7]) star_edges = []"
proof -
  have h: "\<forall>e \<in> set star_edges. 0 \<le> weight e"
    by (simp add: star_edges_def star_edge_def)
  from h findAmplificationNetworks_nonneg_empty [OF h] show ?thesis
    by (simp add: list_all_iff)
qed

end
